theory Spec2Isabelle
  imports Main "HOL-Library.Sublist"
begin

section \<open>Text, character classes and the regular expressions of the program\<close>

text \<open>
  Python strings are modelled as \<open>string\<close>; one \<open>char\<close> stands for one code point
  below 256 (the device output is ASCII text). The character classes are the ones
  Python's \<open>re\<close> module uses for \<open>str\<close> patterns, restricted to these code points:
  \<open>\d\<close> is a decimal digit, \<open>\w\<close> is an alphanumeric character or the underscore,
  \<open>\s\<close> is white space, \<open>.\<close> is anything but a newline, and \<open>[0-9a-fA-F]\<close> is
  the bracket class written in the source.
\<close>

definition code :: "char \<Rightarrow> nat" where
  "code c = of_char c"

definition is_digit :: "char \<Rightarrow> bool" where
  "is_digit c = (48 \<le> code c \<and> code c \<le> 57)"

definition is_upper :: "char \<Rightarrow> bool" where
  "is_upper c = ((65 \<le> code c \<and> code c \<le> 90) \<or> (192 \<le> code c \<and> code c \<le> 214)
                 \<or> (216 \<le> code c \<and> code c \<le> 222))"

definition is_hex :: "char \<Rightarrow> bool" where
  "is_hex c = (is_digit c \<or> (97 \<le> code c \<and> code c \<le> 102) \<or> (65 \<le> code c \<and> code c \<le> 70))"

definition is_word :: "char \<Rightarrow> bool" where
  "is_word c = (is_digit c \<or> (65 \<le> code c \<and> code c \<le> 90) \<or> (97 \<le> code c \<and> code c \<le> 122)
                \<or> code c = 95
                \<or> code c \<in> {170, 178, 179, 181, 185, 186, 188, 189, 190}
                \<or> (192 \<le> code c \<and> code c \<le> 214) \<or> (216 \<le> code c \<and> code c \<le> 246)
                \<or> 248 \<le> code c)"

definition is_space :: "char \<Rightarrow> bool" where
  "is_space c = ((9 \<le> code c \<and> code c \<le> 13) \<or> (28 \<le> code c \<and> code c \<le> 32)
                 \<or> code c = 133 \<or> code c = 160)"

definition is_newline :: "char \<Rightarrow> bool" where
  "is_newline c = (code c = 10)"

datatype cclass = Digit | HexDigit | Word | Space | AnyChar

fun in_class :: "cclass \<Rightarrow> char \<Rightarrow> bool" where
  "in_class Digit c = is_digit c"
| "in_class HexDigit c = is_hex c"
| "in_class Word c = is_word c"
| "in_class Space c = is_space c"
| "in_class AnyChar c = (\<not> is_newline c)"

text \<open>
  Every pattern of the program is a sequence of literals and of greedy repetitions of one
  character class (\<open>c{lo,hi}\<close>, \<open>c+\<close> is \<open>Rep c 1 None\<close>, \<open>c*\<close> is \<open>Rep c 0 None\<close>),
  with at most one capture group around a run of them.
\<close>

datatype atom = Lit string | Rep cclass nat "nat option"

datatype regex = NoGroup "atom list" | OneGroup "atom list" "atom list" "atom list"

fun first_some :: "('a \<Rightarrow> 'b option) \<Rightarrow> 'a list \<Rightarrow> 'b option" where
  "first_some f [] = None"
| "first_some f (x # xs) = (case f x of Some y \<Rightarrow> Some y | None \<Rightarrow> first_some f xs)"

lemma first_some_cong [fundef_cong]:
  "xs = ys \<Longrightarrow> (\<And>x. x \<in> set ys \<Longrightarrow> f x = g x) \<Longrightarrow> first_some f xs = first_some g ys"
  by (induction ys arbitrary: xs) (auto split: option.splits)

text \<open>
  The backtracking matcher: \<open>match_here as s\<close> matches the atoms at the start of \<open>s\<close>
  and returns the number of characters each atom consumed. A repetition first takes as
  many characters as it can (up to its bound) and gives them back one at a time until
  the rest of the pattern matches, as Python's matcher does.
\<close>

fun match_here :: "atom list \<Rightarrow> string \<Rightarrow> nat list option" where
  "match_here [] s = Some []"
| "match_here (Lit l # as) s =
     (if prefix l s then map_option (Cons (length l)) (match_here as (drop (length l) s))
      else None)"
| "match_here (Rep k lo hi # as) s =
     (let avail = length (takeWhile (in_class k) s);
          most = (case hi of None \<Rightarrow> avail | Some h \<Rightarrow> min h avail)
      in first_some (\<lambda>n. map_option (Cons n) (match_here as (drop n s))) (rev [lo..<Suc most]))"

declare match_here.simps(3) [simp del]

lemmas match_Rep = match_here.simps(3)

text \<open>
  \<open>match_at re s\<close>: the length of the match of \<open>re\<close> at the start of \<open>s\<close> and the string
  \<open>re.findall\<close> reports for it: group 1 when the pattern has a group, the whole match
  otherwise.
\<close>

fun match_at :: "regex \<Rightarrow> string \<Rightarrow> (nat \<times> string) option" where
  "match_at (NoGroup as) s =
     map_option (\<lambda>ns. (sum_list ns, take (sum_list ns) s)) (match_here as s)"
| "match_at (OneGroup b g a) s =
     map_option (\<lambda>ns. (sum_list ns,
                       take (sum_list (take (length g) (drop (length b) ns)))
                            (drop (sum_list (take (length b) ns)) s)))
                (match_here (b @ g @ a) s)"

text \<open>
  \<open>re.findall\<close>: scan from the left; after a match of length \<open>n\<close> the scan resumes
  \<open>n\<close> characters further (one character further after an empty match, which no
  pattern of this program can produce). \<open>scan re k s\<close> still has \<open>k\<close> characters to
  skip before it tries a match again.
\<close>

fun scan :: "regex \<Rightarrow> nat \<Rightarrow> string \<Rightarrow> string list" where
  "scan re k [] = (if k = 0 then (case match_at re [] of Some (n, r) \<Rightarrow> [r] | None \<Rightarrow> []) else [])"
| "scan re (Suc k) (c # s) = scan re k s"
| "scan re 0 (c # s) =
     (case match_at re (c # s) of
        Some (n, r) \<Rightarrow> r # scan re (n - 1) s
      | None \<Rightarrow> scan re 0 s)"

definition findall :: "regex \<Rightarrow> string \<Rightarrow> string list" where
  "findall re s = scan re 0 s"

text \<open>Python's \<open>sub in s\<close> on strings.\<close>

fun contains :: "string \<Rightarrow> string \<Rightarrow> bool" where
  "contains sub [] = (sub = [])"
| "contains sub (c # s) = (prefix sub (c # s) \<or> contains sub s)"

text \<open>\<open>str.lower\<close> on code points below 256.\<close>

definition lower_char :: "char \<Rightarrow> char" where
  "lower_char c = (if is_upper c then char_of (code c + 32) else c)"

definition lower :: "string \<Rightarrow> string" where
  "lower s = map lower_char s"

text \<open>The patterns, as written in \<open>check_access_sessions.py\<close>.\<close>

definition mac_re :: regex where
  "mac_re = NoGroup [Rep HexDigit 4 (Some 4), Lit ''.'', Rep HexDigit 4 (Some 4), Lit ''.'',
                     Rep HexDigit 4 (Some 4)]"

definition session_count_re :: regex where
  "session_count_re = OneGroup [Lit ''Session count = ''] [Rep Digit 1 None] [Lit ''\<newline>'']"

definition ipv4_re :: regex where
  "ipv4_re = NoGroup [Rep Digit 1 (Some 3), Lit ''.'', Rep Digit 1 (Some 3), Lit ''.'',
                      Rep Digit 1 (Some 3), Lit ''.'', Rep Digit 1 (Some 3)]"

definition method_re :: regex where
  "method_re = OneGroup [] [Rep Word 3 (Some 5)]
                        [Rep Space 1 None, Lit ''Authc'', Rep Space 1 (Some 1), Rep AnyChar 0 None]"

definition status_re :: regex where
  "status_re = OneGroup [Lit ''Status:  ''] [Rep AnyChar 0 None] []"

definition interface_re :: regex where
  "interface_re = OneGroup [Lit ''Interface: ''] [Rep AnyChar 0 None] []"

definition username_re :: regex where
  "username_re = OneGroup [Lit ''User-Name:'', Rep Space 1 None] [Rep AnyChar 0 None] []"

section \<open>MAC normalization (\<open>ise_api.py\<close>)\<close>

text \<open>\<open>re.sub(r"\W+", "", s)\<close> deletes every run of non-word characters.\<close>

definition strip_nonword :: "string \<Rightarrow> string" where
  "strip_nonword s = filter is_word s"

fun join :: "string \<Rightarrow> string list \<Rightarrow> string" where
  "join sep [] = []"
| "join sep [x] = x"
| "join sep (x # y # ys) = x @ sep @ join sep (y # ys)"

definition mac_normalization :: "string \<Rightarrow> string \<Rightarrow> string" where
  "mac_normalization current_mac_address symbol =
     (let m = strip_nonword current_mac_address
      in if length m = 12
         then join symbol (map (\<lambda>i. take 4 (drop i m)) [0, 4, 8])
         else ''Error'')"

section \<open>The outside world\<close>

text \<open>
  The program talks to a switch over SSH, to the vendor service over HTTP and to the file
  system. Every such call is recorded, with its outcome, in a log of events; what the
  outside world answers is a parameter of the model and may depend on everything that
  happened so far. \<open>CommandError\<close> stands for whatever exception \<open>send_command\<close>
  raises and \<open>OSError\<close> for a failure to open the snapshot file; the other errors
  are the exceptions the source raises itself or by indexing an empty list.
\<close>

datatype error = ConnectionError | AttributeError | IndexError | CommandError | OSError

datatype connect_outcome =
  Connected
| ParamikoAuthenticationException
| NetmikoTimeoutException
| NetmikoAuthenticationException
| OtherException

datatype cmd_outcome = Output string | CommandRaises

datatype http_outcome = Response nat string | RequestException

datatype event =
  Connect string connect_outcome
| SendCommand string cmd_outcome
| HttpGet string http_outcome
| Sleep nat
| Disconnect
| WriteFile string bool

record env =
  connect_reply :: "event list \<Rightarrow> string \<Rightarrow> connect_outcome"
  command_reply :: "event list \<Rightarrow> string \<Rightarrow> cmd_outcome"
  http_reply :: "event list \<Rightarrow> string \<Rightarrow> http_outcome"
  open_reply :: "event list \<Rightarrow> string \<Rightarrow> bool"

datatype handle = Handle string

section \<open>The session collector (\<open>check_access_sessions.py\<close>)\<close>

text \<open>
  \<open>try_to_connect_ssh\<close>: \<open>netmiko.ConnectHandler(...)\<close> followed by \<open>enable()\<close>; every
  exception is caught and turned into \<open>None\<close>.
\<close>

definition try_to_connect_ssh :: "env \<Rightarrow> event list \<Rightarrow> string \<Rightarrow> handle option \<times> event list" where
  "try_to_connect_ssh e tr current_ip_address =
     (let outcome = connect_reply e tr current_ip_address
      in (case outcome of
            Connected \<Rightarrow> Some (Handle current_ip_address)
          | ParamikoAuthenticationException \<Rightarrow> None
          | NetmikoTimeoutException \<Rightarrow> None
          | NetmikoAuthenticationException \<Rightarrow> None
          | OtherException \<Rightarrow> None,
          tr @ [Connect current_ip_address outcome]))"

text \<open>
  The entry of \<open>dict_result\<close> for one session; \<open>auth_method\<close> is the key
  \<open>"method"\<close> and \<open>vendor\<close> is the optional key.
\<close>

record session_details =
  status :: string
  interface :: string
  mac_address :: string
  ip_address :: string
  user_name :: string
  auth_method :: string
  vendor :: "string option"

record device =
  current_ip_address :: string
  dict_result :: "string \<rightharpoonup> session_details"
  connection :: "handle option"
  session_count :: "string list"
  mac_addresses :: "string list"

definition Device :: "string \<Rightarrow> device" where
  "Device ip = \<lparr>current_ip_address = ip, dict_result = Map.empty, connection = None,
                session_count = [], mac_addresses = []\<rparr>"

text \<open>
  A method of \<open>Device\<close> takes the object and the log and returns whether it raised,
  together with the object and the log as it left them.
\<close>

type_synonym 'a outcome = "(error + 'a) \<times> device \<times> event list"

definition init_connection_ssh :: "env \<Rightarrow> device \<times> event list \<Rightarrow> unit outcome" where
  "init_connection_ssh e st =
     (case st of (dev, tr) \<Rightarrow>
        (case try_to_connect_ssh e tr (current_ip_address dev) of (c, tr') \<Rightarrow>
           (case c of
              None \<Rightarrow> (Inl ConnectionError, dev\<lparr>connection := c\<rparr>, tr')
            | Some h \<Rightarrow> (Inr (), dev\<lparr>connection := c\<rparr>, tr'))))"

definition close_connection :: "device \<times> event list \<Rightarrow> device \<times> event list" where
  "close_connection st =
     (case st of (dev, tr) \<Rightarrow>
        (case connection dev of None \<Rightarrow> (dev, tr) | Some h \<Rightarrow> (dev, tr @ [Disconnect])))"

definition send_command :: "env \<Rightarrow> event list \<Rightarrow> string \<Rightarrow> cmd_outcome \<times> event list" where
  "send_command e tr command =
     (let outcome = command_reply e tr command in (outcome, tr @ [SendCommand command outcome]))"

definition collect_active_sessions :: "env \<Rightarrow> device \<times> event list \<Rightarrow> unit outcome" where
  "collect_active_sessions e st =
     (case st of (dev, tr) \<Rightarrow>
        (case connection dev of
           None \<Rightarrow> (Inl AttributeError, dev, tr)
         | Some h \<Rightarrow>
             (case send_command e tr ''term len 0'' of
                (CommandRaises, tr1) \<Rightarrow> (Inl CommandError, dev, tr1)
              | (Output ignored, tr1) \<Rightarrow>
                  (case send_command e tr1 ''show access-session'' of
                     (CommandRaises, tr2) \<Rightarrow> (Inl CommandError, dev, tr2)
                   | (Output active_sessions, tr2) \<Rightarrow>
                       (Inr (),
                        dev\<lparr>session_count := findall session_count_re active_sessions,
                            mac_addresses := findall mac_re active_sessions\<rparr>,
                        tr2)))))"

text \<open>\<open>xs[0] if xs else d\<close>.\<close>

definition first_or :: "'a list \<Rightarrow> 'a \<Rightarrow> 'a" where
  "first_or xs d = (case xs of [] \<Rightarrow> d | x # rest \<Rightarrow> x)"

text \<open>
  Lines 204 to 232 of \<open>collect_active_sessions_details\<close>: the dictionary built from the
  detail text of one session, before the vendor is looked up.
\<close>

definition dict_session_details :: "string \<Rightarrow> string \<Rightarrow> session_details" where
  "dict_session_details each text =
     \<lparr>status = first_or (findall status_re text) ''Unknown'',
      interface = first_or (findall interface_re text) ''Unknown'',
      mac_address = first_or (findall mac_re text) each,
      ip_address = first_or (findall ipv4_re text) ''unknown'',
      user_name = first_or (findall username_re text) ''Unknown'',
      auth_method = first_or (findall method_re text) ''Unknown'',
      vendor = None\<rparr>"

definition requests_get :: "env \<Rightarrow> event list \<Rightarrow> string \<Rightarrow> http_outcome \<times> event list" where
  "requests_get e tr url =
     (let outcome = http_reply e tr url in (outcome, tr @ [HttpGet url outcome]))"

text \<open>
  Lines 235 to 246: the vendor query for MAB sessions. \<open>meth\<close> and \<open>mac\<close> are the lists
  \<open>re.findall\<close> returned for the method and the MAC address. The URL is built from
  \<open>mac_address[0]\<close> inside the \<open>try\<close>, whose handler catches \<open>RequestException\<close> only.
\<close>

definition vendor_lookup ::
  "env \<Rightarrow> string list \<Rightarrow> string list \<Rightarrow> session_details \<Rightarrow> event list
   \<Rightarrow> (error + session_details) \<times> event list" where
  "vendor_lookup e meth mac d tr =
     (case meth of
        [] \<Rightarrow> (Inr d, tr)
      | m # ms \<Rightarrow>
          if lower m = ''mab'' then
            (case mac of
               [] \<Rightarrow> (Inl IndexError, tr)
             | a # as \<Rightarrow>
                 (case requests_get e tr (''https://api.macvendors.com/'' @ a) of
                    (Response status_code body, tr1) \<Rightarrow>
                      (Inr (d\<lparr>vendor := Some (if status_code = 200 then body else ''Unknown'')\<rparr>),
                       tr1 @ [Sleep 1])
                  | (RequestException, tr1) \<Rightarrow> (Inr (d\<lparr>vendor := Some ''Unknown''\<rparr>), tr1)))
          else (Inr d, tr))"

definition detail_command :: "string \<Rightarrow> string" where
  "detail_command each = ''show access-session mac '' @ each @ '' details''"

definition is_failure :: "string \<Rightarrow> bool" where
  "is_failure text = (contains ''FAIL'' text \<or> contains ''Unauthorized'' text)"

text \<open>One iteration of the loop over \<open>self.mac_addresses\<close>.\<close>

definition details_step :: "env \<Rightarrow> string \<Rightarrow> device \<times> event list \<Rightarrow> unit outcome" where
  "details_step e each st =
     (case st of (dev, tr) \<Rightarrow>
        (case send_command e tr (detail_command each) of
           (CommandRaises, tr1) \<Rightarrow> (Inl CommandError, dev, tr1)
         | (Output text, tr1) \<Rightarrow>
             if is_failure text then
               (case vendor_lookup e (findall method_re text) (findall mac_re text)
                       (dict_session_details each text) tr1 of
                  (Inl err, tr2) \<Rightarrow> (Inl err, dev, tr2)
                | (Inr d, tr2) \<Rightarrow>
                    (Inr (), dev\<lparr>dict_result := (dict_result dev)(each \<mapsto> d)\<rparr>, tr2))
             else (Inr (), dev, tr1)))"

fun details_loop :: "env \<Rightarrow> string list \<Rightarrow> device \<times> event list \<Rightarrow> unit outcome" where
  "details_loop e [] st = (Inr (), st)"
| "details_loop e (each # rest) st =
     (case details_step e each st of
        (Inl err, st') \<Rightarrow> (Inl err, st')
      | (Inr u, st') \<Rightarrow> details_loop e rest st')"

definition collect_active_sessions_details :: "env \<Rightarrow> device \<times> event list \<Rightarrow> unit outcome" where
  "collect_active_sessions_details e st =
     (case st of (dev, tr) \<Rightarrow>
        (case connection dev of
           None \<Rightarrow> (Inl AttributeError, dev, tr)
         | Some h \<Rightarrow> details_loop e (mac_addresses dev) (dev, tr)))"

definition get_result :: "device \<Rightarrow> (string \<rightharpoonup> session_details)" where
  "get_result dev = dict_result dev"

text \<open>
  \<open>main\<close>: the run for one switch, from a fresh \<open>Device\<close> and an empty log. It returns
  the dictionary or the exception that ended the run, and the log of the run. (The
  timing message printed at the end is not modelled.)
\<close>

definition main :: "env \<Rightarrow> string \<Rightarrow> (error + (string \<rightharpoonup> session_details)) \<times> event list" where
  "main e ip =
     (case init_connection_ssh e (Device ip, []) of
        (Inl err, dev1, tr1) \<Rightarrow> (Inl err, tr1)
      | (Inr u1, dev1, tr1) \<Rightarrow>
          (case collect_active_sessions e (dev1, tr1) of
             (Inl err, dev2, tr2) \<Rightarrow> (Inl err, tr2)
           | (Inr u2, dev2, tr2) \<Rightarrow>
               (case collect_active_sessions_details e (dev2, tr2) of
                  (Inl err, dev3, tr3) \<Rightarrow> (Inl err, tr3)
                | (Inr u3, dev3, tr3) \<Rightarrow>
                    (case close_connection (dev3, tr3) of (dev4, tr4) \<Rightarrow>
                       (let ok = open_reply e tr4 ''static/result.json'';
                            tr5 = tr4 @ [WriteFile ''static/result.json'' ok]
                        in if ok then (Inr (get_result dev3), tr5) else (Inl OSError, tr5))))))"

section \<open>What the patterns find, in words\<close>

text \<open>
  The definitions of this section do not come from the source: they say in plain terms
  what each pattern of the program finds, and the results below show that the patterns
  find exactly that. \<open>first_where f s\<close> is the result of \<open>f\<close> at the leftmost position
  of \<open>s\<close> where \<open>f\<close> recognises something, and \<open>all_where f s\<close> lists the results of
  \<open>f\<close> at all positions, from left to right.
\<close>

fun first_where :: "(string \<Rightarrow> 'a option) \<Rightarrow> string \<Rightarrow> 'a option" where
  "first_where f [] = f []"
| "first_where f (c # s) = (case f (c # s) of Some r \<Rightarrow> Some r | None \<Rightarrow> first_where f s)"

fun all_where :: "(string \<Rightarrow> 'a option) \<Rightarrow> string \<Rightarrow> 'a list" where
  "all_where f [] = (case f [] of None \<Rightarrow> [] | Some r \<Rightarrow> [r])"
| "all_where f (c # s) = (case f (c # s) of None \<Rightarrow> all_where f s | Some r \<Rightarrow> r # all_where f s)"

text \<open>
  The rest of the line: the text up to the next newline or the end.
\<close>

definition line_rest :: "string \<Rightarrow> string" where
  "line_rest s = takeWhile (\<lambda>c. \<not> is_newline c) s"

text \<open>
  \<open>s\<close> starts with the label: the rest of the line after it.
\<close>

definition after_label :: "string \<Rightarrow> string \<Rightarrow> string option" where
  "after_label label s =
     (if prefix label s then Some (line_rest (drop (length label) s)) else None)"

text \<open>
  \<open>s\<close> starts with the label and white space: the rest of the line after that white
  space (which may include newlines).
\<close>

definition after_label_spaces :: "string \<Rightarrow> string \<Rightarrow> string option" where
  "after_label_spaces label s =
     (if prefix label s \<and> takeWhile is_space (drop (length label) s) \<noteq> []
      then Some (line_rest (dropWhile is_space (drop (length label) s)))
      else None)"

text \<open>
  \<open>s\<close> starts with a word of three to five word characters, followed by white space, the
  literal \<open>Authc\<close> and a white-space character: that word.
\<close>

definition method_token :: "string \<Rightarrow> string option" where
  "method_token s =
     (let w = takeWhile is_word s;
          r = dropWhile is_word s;
          a = dropWhile is_space r
      in if 3 \<le> length w \<and> length w \<le> 5 \<and> takeWhile is_space r \<noteq> []
            \<and> prefix ''Authc'' a \<and> takeWhile is_space (drop 5 a) \<noteq> []
         then Some w else None)"

text \<open>
  The MAC grammar \<open>hex4.hex4.hex4\<close>.
\<close>

definition hex4 :: "string \<Rightarrow> bool" where
  "hex4 s = (length s = 4 \<and> list_all is_hex s)"

definition mac_grammar :: "string \<Rightarrow> bool" where
  "mac_grammar m =
     (hex4 (take 4 m) \<and> take 1 (drop 4 m) = ''.'' \<and> hex4 (take 4 (drop 5 m))
      \<and> take 1 (drop 9 m) = ''.'' \<and> hex4 (drop 10 m))"

text \<open>
  \<open>s\<close> starts with a MAC address: its fourteen characters.
\<close>

definition mac_at :: "string \<Rightarrow> string option" where
  "mac_at s = (if mac_grammar (take 14 s) then Some (take 14 s) else None)"

text \<open>
  The positions of \<open>s\<close> where a MAC address starts; two addresses overlap when they
  start less than fourteen characters apart.
\<close>

definition mac_positions :: "string \<Rightarrow> nat list" where
  "mac_positions s = filter (\<lambda>p. mac_grammar (take 14 (drop p s))) [0..<length s]"

fun non_overlapping :: "nat list \<Rightarrow> bool" where
  "non_overlapping (p # q # ps) = (p + 14 \<le> q \<and> non_overlapping (q # ps))"
| "non_overlapping ps = True"

text \<open>
  The IPv4 grammar: four groups of one to three digits, each taken as long as it can be,
  with a dot after each of the first three.
\<close>

definition digits3 :: "string \<Rightarrow> nat" where
  "digits3 s = min 3 (length (takeWhile is_digit s))"

definition group_dot :: "string \<Rightarrow> nat option" where
  "group_dot s = (if 0 < digits3 s \<and> take 1 (drop (digits3 s) s) = ''.'' then Some (digits3 s) else None)"

definition ipv4_at :: "string \<Rightarrow> string option" where
  "ipv4_at s =
     (case group_dot s of None \<Rightarrow> None | Some a \<Rightarrow>
        (case group_dot (drop (a + 1) s) of None \<Rightarrow> None | Some b \<Rightarrow>
           (case group_dot (drop (b + 1) (drop (a + 1) s)) of None \<Rightarrow> None | Some c \<Rightarrow>
              (let d = digits3 (drop (c + 1) (drop (b + 1) (drop (a + 1) s)))
               in if 0 < d then Some (take (a + 1 + (b + 1) + (c + 1) + d) s) else None))))"

text \<open>
  \<open>s\<close> starts with the label, one or more digits and a newline: the digits.
\<close>

definition count_after :: "string \<Rightarrow> string \<Rightarrow> string option" where
  "count_after label s =
     (let k = takeWhile is_digit (drop (length label) s)
      in if prefix label s \<and> k \<noteq> [] \<and> prefix ''\<newline>'' (drop (length k) (drop (length label) s))
         then Some k else None)"

text \<open>
  The token immediately before a label on a line: the run of characters other than white
  space that ends where the blanks before the first occurrence of the label start.
  \<open>before\<close> holds, reversed, the text already passed.
\<close>

fun token_before_scan :: "string \<Rightarrow> string \<Rightarrow> string \<Rightarrow> string option" where
  "token_before_scan label before [] = None"
| "token_before_scan label before (c # s) =
     (if prefix label (c # s)
      then Some (rev (takeWhile (\<lambda>x. \<not> is_space x)
                        (dropWhile (\<lambda>x. is_space x \<and> \<not> is_newline x) before)))
      else token_before_scan label (c # before) s)"

definition token_before :: "string \<Rightarrow> string \<Rightarrow> string option" where
  "token_before label s = token_before_scan label [] s"

text \<open>
  The least number of characters an atom takes.
\<close>

fun least_length :: "atom \<Rightarrow> nat" where
  "least_length (Lit l) = length l"
| "least_length (Rep k lo hi) = lo"

text \<open>
  Two notions for the proofs: the most characters a repetition can take at the start of
  \<open>s\<close>, and a continuation that cannot match a string starting with a character of the
  class \<open>k\<close>.
\<close>

definition top_count :: "cclass \<Rightarrow> nat option \<Rightarrow> string \<Rightarrow> nat" where
  "top_count k hi s =
     (case hi of None \<Rightarrow> length (takeWhile (in_class k) s)
      | Some h \<Rightarrow> min h (length (takeWhile (in_class k) s)))"

definition rejects :: "cclass \<Rightarrow> atom list \<Rightarrow> bool" where
  "rejects k as = (\<forall>c s. in_class k c \<longrightarrow> match_here as (c # s) = None)"

section \<open>Auxiliary notions for the results\<close>

text \<open>
  The events a query leaves in the log: commands, vendor requests and pauses.
\<close>

definition query_event :: "event \<Rightarrow> bool" where
  "query_event ev = (case ev of SendCommand c r \<Rightarrow> True | HttpGet u r \<Rightarrow> True | Sleep n \<Rightarrow> True
                     | Connect i r \<Rightarrow> False | Disconnect \<Rightarrow> False | WriteFile p ok \<Rightarrow> False)"

text \<open>
  The device object and the log once the connection is open and the inventory has been
  read, when the switch answered \<open>x\<close> and \<open>inventory\<close> to the two commands.
\<close>

definition connected_device :: "string \<Rightarrow> string \<Rightarrow> device" where
  "connected_device ip inventory =
     \<lparr>current_ip_address = ip, dict_result = Map.empty, connection = Some (Handle ip),
      session_count = findall session_count_re inventory,
      mac_addresses = findall mac_re inventory\<rparr>"

definition preamble :: "string \<Rightarrow> string \<Rightarrow> string \<Rightarrow> event list" where
  "preamble ip x inventory =
     [Connect ip Connected, SendCommand ''term len 0'' (Output x),
      SendCommand ''show access-session'' (Output inventory)]"

text \<open>
  What holds of the vendor of an entry, given the log: it is there exactly for MAB, and
  it is what the vendor service answered for the MAC address of the entry.
\<close>

definition vendor_ok :: "event list \<Rightarrow> session_details \<Rightarrow> bool" where
  "vendor_ok tr d =
     ((vendor d \<noteq> None \<longleftrightarrow> lower (auth_method d) = ''mab'') \<and>
      (\<forall>v. vendor d = Some v \<longrightarrow>
         (\<exists>r. HttpGet (''https://api.macvendors.com/'' @ mac_address d) r \<in> set tr \<and>
              v = (case r of Response status_code body \<Rightarrow> if status_code = 200 then body else ''Unknown''
                   | RequestException \<Rightarrow> ''Unknown''))))"

section \<open>Example runs\<close>

text \<open>
  A world that answers the same way whatever happened before: \<open>c\<close> to the connection
  attempt, \<open>sw\<close> to a command, \<open>api\<close> to a vendor request; the snapshot file can be
  written. \<open>demo_switch\<close> answers the inventory command with \<open>inventory\<close> and the
  detail command for a MAC address with \<open>detail\<close> of that address.
\<close>

definition switch_env :: "connect_outcome \<Rightarrow> (string \<Rightarrow> cmd_outcome) \<Rightarrow> (string \<Rightarrow> http_outcome) \<Rightarrow> env" where
  "switch_env c sw api =
     \<lparr>connect_reply = (\<lambda>tr ip. c), command_reply = (\<lambda>tr command. sw command),
      http_reply = (\<lambda>tr url. api url), open_reply = (\<lambda>tr path. True)\<rparr>"

definition demo_switch :: "string \<Rightarrow> (string \<Rightarrow> cmd_outcome) \<Rightarrow> string \<Rightarrow> cmd_outcome" where
  "demo_switch inventory detail command =
     (if command = ''term len 0'' then Output []
      else if command = ''show access-session'' then Output inventory
      else detail (take 14 (drop 24 command)))"

definition mab_detail :: "string \<Rightarrow> cmd_outcome" where
  "mab_detail mac = Output (''FAIL mab Authc x '' @ mac)"

definition mab_detail_no_mac :: "string \<Rightarrow> cmd_outcome" where
  "mab_detail_no_mac mac = Output ''FAIL mab Authc x''"

definition one_failed :: "string \<Rightarrow> cmd_outcome" where
  "one_failed mac = (if mac = ''0050.5699.1234'' then Output ''Unauthorized'' else Output ''Authz Success'')"

definition detail_raises :: "string \<Rightarrow> cmd_outcome" where
  "detail_raises mac = CommandRaises"

definition api_down :: "string \<Rightarrow> http_outcome" where
  "api_down url = RequestException"

definition api_404 :: "string \<Rightarrow> http_outcome" where
  "api_404 url = Response 404 ''Not Found''"

definition inventory_text :: string where
  "inventory_text = ''Gi1/0/1 0050.5699.1234 mab\<newline>Session count = 1\<newline>''"

definition detail_text :: string where
  "detail_text =
     ''Interface: Gi1/0/1\<newline>MAC Address: 0050.5699.1234\<newline>Status:  Unauthorized\<newline>mab   Authc Failed\<newline>''"

definition open_device :: device where
  "open_device = (Device ''10.0.0.1'')\<lparr>connection := Some (Handle ''10.0.0.1'')\<rparr>"

definition inventory_env :: env where
  "inventory_env = switch_env Connected (demo_switch inventory_text one_failed) api_down"

definition detail_env :: env where
  "detail_env = switch_env Connected (\<lambda>command. Output detail_text) api_404"

definition demo_result :: "string \<rightharpoonup> session_details" where
  "demo_result = [''0050.5699.1234'' \<mapsto>
     \<lparr>status = ''Unknown'', interface = ''Unknown'', mac_address = ''0050.5699.1234'',
      ip_address = ''unknown'', user_name = ''Unknown'', auth_method = ''Unknown'', vendor = None\<rparr>]"

definition demo_log :: "event list" where
  "demo_log =
     [Connect ''10.0.0.1'' Connected,
      SendCommand ''term len 0'' (Output []),
      SendCommand ''show access-session'' (Output ''0050.5699.1234 0050.5699.5678''),
      SendCommand ''show access-session mac 0050.5699.1234 details'' (Output ''Unauthorized''),
      SendCommand ''show access-session mac 0050.5699.5678 details'' (Output ''Authz Success''),
      Disconnect,
      WriteFile ''static/result.json'' True]"

definition upper_mab_detail :: "string \<Rightarrow> cmd_outcome" where
  "upper_mab_detail mac = Output (''FAIL MAB Authc x '' @ mac)"

definition upper_result :: "string \<rightharpoonup> session_details" where
  "upper_result = [''0050.5699.1234'' \<mapsto>
     \<lparr>status = ''Unknown'', interface = ''Unknown'', mac_address = ''0050.5699.1234'',
      ip_address = ''unknown'', user_name = ''Unknown'', auth_method = ''MAB'',
      vendor = Some ''Unknown''\<rparr>]"

definition upper_log :: "event list" where
  "upper_log =
     [Connect ''10.0.0.1'' Connected,
      SendCommand ''term len 0'' (Output []),
      SendCommand ''show access-session'' (Output ''0050.5699.1234''),
      SendCommand ''show access-session mac 0050.5699.1234 details''
        (Output ''FAIL MAB Authc x 0050.5699.1234''),
      HttpGet ''https://api.macvendors.com/0050.5699.1234'' (Response 404 ''Not Found''),
      Sleep 1,
      Disconnect,
      WriteFile ''static/result.json'' True]"

definition earlier_device :: device where
  "earlier_device =
     \<lparr>current_ip_address = ''10.0.0.1'',
      dict_result = [''aaaa.bbbb.cccc'' \<mapsto>
        \<lparr>status = ''Authz Failed'', interface = ''Gi1/0/1'', mac_address = ''aaaa.bbbb.cccc'',
         ip_address = ''unknown'', user_name = ''Unknown'', auth_method = ''dot1x'', vendor = None\<rparr>],
      connection = Some (Handle ''10.0.0.1''),
      session_count = [''1''],
      mac_addresses = [''0050.5699.1234'']\<rparr>"

definition later_device :: device where
  "later_device = earlier_device\<lparr>dict_result := (dict_result earlier_device)(''0050.5699.1234'' \<mapsto>
     \<lparr>status = ''Unknown'', interface = ''Unknown'', mac_address = ''0050.5699.1234'',
      ip_address = ''unknown'', user_name = ''Unknown'', auth_method = ''Unknown'', vendor = None\<rparr>)\<rparr>"

section \<open>Evaluation\<close>

lemmas step_splits = cmd_outcome.splits http_outcome.splits prod.splits sum.splits list.splits
  if_splits option.splits

lemmas char_defs = is_hex_def is_digit_def is_word_def is_space_def is_newline_def is_upper_def code_def
lemmas re_defs = match_Rep mac_re_def session_count_re_def ipv4_re_def method_re_def status_re_def interface_re_def username_re_def
lemmas run_defs = main_def init_connection_ssh_def try_to_connect_ssh_def Device_def collect_active_sessions_def
  send_command_def collect_active_sessions_details_def details_step_def detail_command_def is_failure_def
  vendor_lookup_def requests_get_def dict_session_details_def first_or_def close_connection_def get_result_def
  findall_def lower_def lower_char_def Let_def
lemmas demo_defs = switch_env_def demo_switch_def mab_detail_def mab_detail_no_mac_def api_down_def
  api_404_def detail_raises_def

lemmas words_defs = line_rest_def after_label_def after_label_spaces_def method_token_def hex4_def
  mac_grammar_def mac_at_def digits3_def group_dot_def ipv4_at_def count_after_def

section \<open>The matcher on the patterns of the program\<close>

text \<open>
  A match takes at least the characters its literals and the lower bounds of its
  repetitions ask for. Each pattern of the program asks for at least one, so that
  \<open>scan\<close> never meets an empty match on them.
\<close>

lemma first_some_SomeD: "first_some f xs = Some y \<Longrightarrow> \<exists>x\<in>set xs. f x = Some y"
  by (induction xs) (auto split: option.splits)

lemma match_here_least:
  "match_here as s = Some ns \<Longrightarrow> sum_list (map least_length as) \<le> sum_list ns"
proof (induction as s arbitrary: ns rule: match_here.induct)
  case (1 s)
  then show ?case by simp
next
  case (2 l as s)
  then show ?case by (auto split: if_splits)
next
  case (3 k lo hi as s)
  let ?most = "case hi of None \<Rightarrow> length (takeWhile (in_class k) s)
               | Some h \<Rightarrow> min h (length (takeWhile (in_class k) s))"
  from 3(2) have "first_some (\<lambda>n. map_option (Cons n) (match_here as (drop n s)))
                    (rev [lo..<Suc ?most]) = Some ns"
    by (simp add: match_Rep Let_def)
  from first_some_SomeD [OF this] obtain n r where
    n: "n \<in> set (rev [lo..<Suc ?most])" and r: "match_here as (drop n s) = Some r" and ns: "ns = n # r"
    by auto
  from n have "n \<in> set [lo..<Suc ?most]" by (simp only: set_rev)
  then have "lo \<le> n" by (simp only: set_upt atLeastLessThan_iff)
  moreover from 3(1) [OF refl refl n r] have "sum_list (map least_length as) \<le> sum_list r" .
  ultimately show ?case using ns by simp
qed

lemma match_at_least:
  assumes "match_at re s = Some (n, r)"
  shows "(case re of NoGroup as \<Rightarrow> sum_list (map least_length as)
          | OneGroup b g a \<Rightarrow> sum_list (map least_length (b @ g @ a))) \<le> n"
  using assms by (cases re) (auto dest: match_here_least)

lemma patterns_never_match_empty:
  assumes "re \<in> {mac_re, session_count_re, ipv4_re, method_re, status_re, interface_re, username_re}"
    and "match_at re s = Some (n, r)"
  shows "0 < n"
  using match_at_least [OF assms(2)] assms(1)
  by (auto simp: mac_re_def session_count_re_def ipv4_re_def method_re_def status_re_def
        interface_re_def username_re_def)

lemma first_some_None: "(\<And>x. x \<in> set xs \<Longrightarrow> f x = None) \<Longrightarrow> first_some f xs = None"
  by (induction xs) auto

lemma rev_upt_top: "lo \<le> n \<Longrightarrow> rev [lo..<Suc n] = n # rev [lo..<n]"
  by simp

lemma match_here_Rep_last:
  "match_here [Rep k lo hi] s = (if lo \<le> top_count k hi s then Some [top_count k hi s] else None)"
  by (simp add: match_Rep top_count_def Let_def split: option.splits)

lemma drop_in_class:
  assumes "j < length (takeWhile P s)"
  shows "\<exists>c r. drop j s = c # r \<and> P c"
proof -
  from assms have j: "j < length s" using length_takeWhile_le [of P s] by simp
  have "P (s ! j)" using assms by (metis nth_mem set_takeWhileD takeWhile_nth)
  with j show ?thesis by (metis Cons_nth_drop_Suc)
qed

lemma match_here_Rep_greedy:
  assumes "rejects k as"
  shows "match_here (Rep k lo hi # as) s =
           (if lo \<le> top_count k hi s
            then map_option (Cons (top_count k hi s)) (match_here as (drop (top_count k hi s) s))
            else None)"
proof -
  let ?top = "top_count k hi s"
  let ?f = "\<lambda>n. map_option (Cons n) (match_here as (drop n s))"
  have eq: "match_here (Rep k lo hi # as) s = first_some ?f (rev [lo..<Suc ?top])"
    by (simp add: match_Rep top_count_def Let_def split: option.splits)
  show ?thesis
  proof (cases "lo \<le> ?top")
    case False
    then show ?thesis unfolding eq by simp
  next
    case True
    have "?f j = None" if "j \<in> set (rev [lo..<?top])" for j
    proof -
      from that have "j < ?top" by simp
      also have "?top \<le> length (takeWhile (in_class k) s)"
        by (simp add: top_count_def split: option.splits)
      finally obtain c r where "drop j s = c # r" "in_class k c"
        using drop_in_class by blast
      with assms show ?thesis by (simp add: rejects_def)
    qed
    then have "first_some ?f (rev [lo..<?top]) = None" by (rule first_some_None)
    with True show ?thesis unfolding eq by (simp split: option.splits)
  qed
qed

lemma rejects_Lit: "\<not> in_class k c \<Longrightarrow> rejects k (Lit (c # l) # as)"
  by (auto simp: rejects_def)

lemma rejects_Rep:
  assumes "0 < lo" and "\<And>c. in_class k c \<Longrightarrow> \<not> in_class k' c"
  shows "rejects k (Rep k' lo hi # as)"
  using assms by (auto simp: match_Rep rejects_def Let_def split: option.splits)

lemma in_class_eqs:
  "in_class Digit = is_digit" "in_class HexDigit = is_hex" "in_class Word = is_word"
  "in_class Space = is_space" "in_class AnyChar = (\<lambda>c. \<not> is_newline c)"
  by (rule ext, simp)+

lemma take_length_takeWhile: "take (length (takeWhile P s)) s = takeWhile P s"
  by (induction s) auto

lemma drop_length_takeWhile: "drop (length (takeWhile P s)) s = dropWhile P s"
  by (induction s) auto

lemma match_at_label:
  "map_option snd (match_at (OneGroup [Lit l] [Rep AnyChar 0 None] []) s) = after_label l s"
  by (simp add: after_label_def line_rest_def match_here_Rep_last top_count_def
        in_class_eqs take_length_takeWhile)

lemma match_at_status: "map_option snd (match_at status_re s) = after_label ''Status:  '' s"
  unfolding status_re_def by (rule match_at_label)

lemma match_at_interface: "map_option snd (match_at interface_re s) = after_label ''Interface: '' s"
  unfolding interface_re_def by (rule match_at_label)

lemma match_here_Rep_first:
  assumes "match_here as (drop (top_count k hi s) s) = Some r"
  shows "match_here (Rep k lo hi # as) s =
           (if lo \<le> top_count k hi s then Some (top_count k hi s # r) else None)"
proof -
  have eq: "match_here (Rep k lo hi # as) s =
      first_some (\<lambda>n. map_option (Cons n) (match_here as (drop n s))) (rev [lo..<Suc (top_count k hi s)])"
    by (simp add: match_Rep top_count_def Let_def split: option.splits)
  show ?thesis unfolding eq using assms by simp
qed

lemma match_at_label_spaces:
  "map_option snd (match_at (OneGroup [Lit l, Rep Space 1 None] [Rep AnyChar 0 None] []) s)
     = after_label_spaces l s"
proof -
  let ?r = "drop (length l) s"
  let ?n = "length (takeWhile is_space ?r)"
  let ?m = "length (takeWhile (\<lambda>c. \<not> is_newline c) (drop ?n ?r))"
  have last: "match_here [Rep AnyChar 0 None] (drop ?n ?r) = Some [?m]"
    by (simp add: match_here_Rep_last top_count_def in_class_eqs)
  have tc: "top_count Space None ?r = ?n" by (simp add: top_count_def in_class_eqs)
  have sp: "match_here [Rep Space 1 None, Rep AnyChar 0 None] ?r =
          (if 1 \<le> ?n then Some [?n, ?m] else None)"
    using match_here_Rep_first [of "[Rep AnyChar 0 None]" Space None ?r "[?m]" 1] last
    unfolding tc by simp
  have "match_here [Lit l, Rep Space 1 None, Rep AnyChar 0 None] s =
          (if prefix l s \<and> 1 \<le> ?n then Some [length l, ?n, ?m] else None)"
    using sp by simp
  then show ?thesis
    by (simp add: after_label_spaces_def line_rest_def take_length_takeWhile
          drop_length_takeWhile [symmetric] Suc_le_eq add.commute)
qed

lemma match_at_username:
  "map_option snd (match_at username_re s) = after_label_spaces ''User-Name:'' s"
  unfolding username_re_def by (rule match_at_label_spaces)

lemma match_here_digits_newline:
  "match_here [Rep Digit 1 None, Lit ''\<newline>''] r =
     (if takeWhile is_digit r \<noteq> [] \<and> prefix ''\<newline>'' (dropWhile is_digit r)
      then Some [length (takeWhile is_digit r), 1] else None)"
proof -
  have r: "rejects Digit [Lit ''\<newline>'']"
    by (rule rejects_Lit) (simp add: is_digit_def code_def)
  show ?thesis
    by (simp add: match_here_Rep_greedy [OF r] top_count_def
          in_class_eqs drop_length_takeWhile Suc_le_eq)
qed

lemma match_at_count:
  "match_at (OneGroup [Lit l] [Rep Digit 1 None] [Lit ''\<newline>'']) s =
     map_option (\<lambda>k. (length l + length k + 1, k)) (count_after l s)"
proof -
  have m: "match_here ([Lit l] @ [Rep Digit 1 None] @ [Lit ''\<newline>'']) s =
             (if prefix l s
              then map_option (Cons (length l))
                     (match_here [Rep Digit 1 None, Lit ''\<newline>''] (drop (length l) s))
              else None)"
    by simp
  show ?thesis
    unfolding match_at.simps m match_here_digits_newline
    by (simp add: count_after_def take_length_takeWhile drop_length_takeWhile Let_def
          del: drop_drop)
qed

lemma match_at_session_count:
  "match_at session_count_re s =
     map_option (\<lambda>k. (length ''Session count = '' + length k + 1, k)) (count_after ''Session count = '' s)"
  unfolding session_count_re_def by (rule match_at_count)

lemma length_takeWhile_ge:
  "n \<le> length (takeWhile P s) \<longleftrightarrow> length (take n s) = n \<and> list_all P (take n s)"
proof (induction s arbitrary: n)
  case Nil
  then show ?case by simp
next
  case (Cons c s)
  then show ?case by (cases n) auto
qed

lemma match_here_Rep_exact:
  "match_here (Rep k n (Some n) # as) s =
     (if n \<le> length (takeWhile (in_class k) s)
      then map_option (Cons n) (match_here as (drop n s)) else None)"
proof (cases "n \<le> length (takeWhile (in_class k) s)")
  case True
  then have "min n (length (takeWhile (in_class k) s)) = n" by simp
  with True show ?thesis by (simp add: match_Rep split: option.splits)
next
  case False
  then have "[n..<Suc (min n (length (takeWhile (in_class k) s)))] = []" by simp
  with False show ?thesis by (simp add: match_Rep del: upt_Suc)
qed

lemma match_here_hex4:
  "match_here (Rep HexDigit 4 (Some 4) # as) s =
     (if hex4 (take 4 s) then map_option (Cons 4) (match_here as (drop 4 s)) else None)"
  unfolding match_here_Rep_exact
  by (simp add: length_takeWhile_ge hex4_def in_class_eqs)

lemma prefix_dot: "prefix ''.'' s \<longleftrightarrow> take 1 s = ''.''"
  by (cases s) auto

lemma match_here_mac:
  "match_here [Rep HexDigit 4 (Some 4), Lit ''.'', Rep HexDigit 4 (Some 4), Lit ''.'',
               Rep HexDigit 4 (Some 4)] s =
     (if mac_grammar (take 14 s) then Some [4, 1, 4, 1, 4] else None)"
proof -
  have g: "mac_grammar (take 14 s) \<longleftrightarrow>
             hex4 (take 4 s) \<and> take 1 (drop 4 s) = ''.'' \<and> hex4 (take 4 (drop 5 s))
             \<and> take 1 (drop 9 s) = ''.'' \<and> hex4 (take 4 (drop 10 s))"
    by (simp add: mac_grammar_def drop_take)
  show ?thesis
    unfolding g match_here_hex4 match_here.simps(1,2) prefix_dot
    by simp
qed

lemma match_at_mac:
  "match_at mac_re s = (if mac_grammar (take 14 s) then Some (14, take 14 s) else None)"
  unfolding mac_re_def match_at.simps match_here_mac by simp

lemma word_not_space: "is_word c \<Longrightarrow> \<not> is_space c"
  by (auto simp: is_word_def is_space_def is_digit_def)

lemma nonempty_takeWhile: "takeWhile P s \<noteq> [] \<longleftrightarrow> 1 \<le> length (takeWhile P s)"
  by (cases "takeWhile P s") auto

lemma match_here_spaced_literal:
  assumes "\<not> is_space a"
  shows "match_here [Rep Space 1 None, Lit (a # l), Rep Space 1 (Some 1), Rep AnyChar 0 None] r =
     (if takeWhile is_space r \<noteq> [] \<and> prefix (a # l) (dropWhile is_space r)
         \<and> takeWhile is_space (drop (length (a # l)) (dropWhile is_space r)) \<noteq> []
      then Some [length (takeWhile is_space r), length (a # l), 1,
                 length (line_rest (drop 1 (drop (length (a # l)) (dropWhile is_space r))))]
      else None)"
proof -
  let ?a = "dropWhile is_space r"
  let ?b = "drop (length (a # l)) ?a"
  have last: "\<And>t. match_here [Rep AnyChar 0 None] t = Some [length (line_rest t)]"
    by (simp add: match_here_Rep_last top_count_def in_class_eqs line_rest_def)
  have one: "match_here [Rep Space 1 (Some 1), Rep AnyChar 0 None] ?b =
               (if takeWhile is_space ?b \<noteq> [] then Some [1, length (line_rest (drop 1 ?b))] else None)"
  proof (cases "takeWhile is_space ?b = []")
    case True
    then have "top_count Space (Some 1) ?b = 0" by (simp add: top_count_def in_class_eqs)
    with True show ?thesis
      using match_here_Rep_first [of "[Rep AnyChar 0 None]" Space "Some 1" ?b _ 1] last
      by simp
  next
    case False
    then have "1 \<le> length (takeWhile is_space ?b)" by (simp add: nonempty_takeWhile)
    then have "top_count Space (Some 1) ?b = 1" by (simp add: top_count_def in_class_eqs)
    with False show ?thesis
      using match_here_Rep_first [of "[Rep AnyChar 0 None]" Space "Some 1" ?b _ 1] last
      by simp
  qed
  have lit: "match_here [Lit (a # l), Rep Space 1 (Some 1), Rep AnyChar 0 None] ?a =
               (if prefix (a # l) ?a \<and> takeWhile is_space ?b \<noteq> []
                then Some [length (a # l), 1, length (line_rest (drop 1 ?b))] else None)"
    unfolding match_here.simps(2) one by simp
  have rej: "rejects Space [Lit (a # l), Rep Space 1 (Some 1), Rep AnyChar 0 None]"
    using assms by (rule rejects_Lit [of Space, simplified])
  have tc: "top_count Space None r = length (takeWhile is_space r)"
    by (simp add: top_count_def in_class_eqs)
  show ?thesis
    unfolding match_here_Rep_greedy [OF rej] tc drop_length_takeWhile lit
    by (simp add: nonempty_takeWhile)
qed

lemma match_here_method_tail:
  "match_here [Rep Space 1 None, Lit ''Authc'', Rep Space 1 (Some 1), Rep AnyChar 0 None] r =
     (if takeWhile is_space r \<noteq> [] \<and> prefix ''Authc'' (dropWhile is_space r)
         \<and> takeWhile is_space (drop 5 (dropWhile is_space r)) \<noteq> []
      then Some [length (takeWhile is_space r), 5, 1,
                 length (line_rest (drop 1 (drop 5 (dropWhile is_space r))))]
      else None)"
proof -
  have a: "\<not> is_space CHR ''A''" by (simp add: is_space_def code_def)
  have len: "length ''Authc'' = 5" by simp
  show ?thesis
    using match_here_spaced_literal [OF a, of "''uthc''" r] unfolding len .
qed

lemma match_at_method: "map_option snd (match_at method_re s) = method_token s"
proof -
  let ?tail = "[Rep Space 1 None, Lit ''Authc'', Rep Space 1 (Some 1), Rep AnyChar 0 None]"
  let ?wl = "length (takeWhile is_word s)"
  have rej: "rejects Word ?tail"
    by (rule rejects_Rep) (simp_all add: word_not_space)
  have tc: "top_count Word (Some 5) s = min 5 ?wl" by (simp add: top_count_def in_class_eqs)
  have m: "match_here ([] @ [Rep Word 3 (Some 5)] @ ?tail) s =
             (if 3 \<le> min 5 ?wl
              then map_option (Cons (min 5 ?wl)) (match_here ?tail (drop (min 5 ?wl) s))
              else None)"
    using match_here_Rep_greedy [OF rej, of 3 "Some 5" s] unfolding tc by simp
  show ?thesis
  proof (cases "?wl \<le> 5")
    case True
    then have "min 5 ?wl = ?wl" by simp
    then show ?thesis
      unfolding method_re_def match_at.simps m match_here_method_tail
      by (simp add: method_token_def drop_length_takeWhile take_length_takeWhile Let_def True)
  next
    case False
    then have five: "min 5 ?wl = 5" and lt: "5 < ?wl" by simp_all
    from drop_in_class [OF lt] obtain c t where "drop 5 s = c # t" "is_word c" by blast
    then have "takeWhile is_space (drop 5 s) = []" by (simp add: word_not_space)
    then show ?thesis
      unfolding method_re_def match_at.simps m match_here_method_tail five
      using False by (simp add: method_token_def Let_def)
  qed
qed

lemma match_here_group_dot:
  "match_here (Rep Digit 1 (Some 3) # Lit ''.'' # as) s =
     (case group_dot s of None \<Rightarrow> None
      | Some n \<Rightarrow> map_option (\<lambda>r. n # 1 # r) (match_here as (drop (n + 1) s)))"
proof -
  have rej: "rejects Digit (Lit ''.'' # as)"
    by (rule rejects_Lit) (simp add: is_digit_def code_def)
  have tc: "top_count Digit (Some 3) s = digits3 s"
    by (simp add: top_count_def digits3_def in_class_eqs)
  show ?thesis
    unfolding match_here_Rep_greedy [OF rej] tc match_here.simps(2) prefix_dot
    by (auto simp: group_dot_def Suc_le_eq option.map_comp comp_def add.commute)
qed

lemma match_here_last_group:
  "match_here [Rep Digit 1 (Some 3)] s = (if 0 < digits3 s then Some [digits3 s] else None)"
  by (simp add: match_here_Rep_last top_count_def digits3_def in_class_eqs Suc_le_eq)

lemma match_at_ipv4: "map_option snd (match_at ipv4_re s) = ipv4_at s"
  unfolding ipv4_re_def match_at.simps match_here_group_dot match_here_last_group
  by (simp add: ipv4_at_def Let_def ac_simps split: option.splits)

lemma first_or_findall:
  assumes "\<And>t. map_option snd (match_at re t) = f t"
  shows "first_or (findall re s) d = (case first_where f s of None \<Rightarrow> d | Some r \<Rightarrow> r)"
proof -
  have "first_or (scan re 0 s) d = (case first_where f s of None \<Rightarrow> d | Some r \<Rightarrow> r)"
  proof (induction s)
    case Nil
    show ?case using assms [of "[]", symmetric] by (cases "match_at re []") (auto simp: first_or_def)
  next
    case (Cons c s)
    show ?case using assms [of "c # s", symmetric] Cons
      by (cases "match_at re (c # s)") (auto simp: first_or_def)
  qed
  then show ?thesis by (simp add: findall_def)
qed

lemma scan_all_where:
  assumes f: "\<And>t. map_option snd (match_at re t) = f t"
    and excl: "\<And>i n r j. match_at re (drop i s) = Some (n, r) \<Longrightarrow> 0 < j \<Longrightarrow> j < n
                 \<Longrightarrow> f (drop (i + j) s) = None"
    and skip: "\<And>j. j < k \<Longrightarrow> f (drop j s) = None"
  shows "scan re k s = all_where f s"
  using excl skip
proof (induction s arbitrary: k)
  case Nil
  show ?case
  proof (cases k)
    case 0
    then show ?thesis using f [of "[]", symmetric] by (cases "match_at re []") auto
  next
    case (Suc k')
    with Nil.prems(2) [of 0] show ?thesis by simp
  qed
next
  case (Cons c s)
  have excl': "\<And>i n r j. match_at re (drop i s) = Some (n, r) \<Longrightarrow> 0 < j \<Longrightarrow> j < n
                 \<Longrightarrow> f (drop (i + j) s) = None"
    using Cons.prems(1) [of "Suc i" for i] by simp
  show ?case
  proof (cases k)
    case (Suc k')
    have "f (c # s) = None" using Cons.prems(2) [of 0] Suc by simp
    moreover have "scan re k' s = all_where f s"
    proof (rule Cons.IH [OF excl'])
      fix j assume "j < k'"
      then show "f (drop j s) = None" using Cons.prems(2) [of "Suc j"] Suc by simp
    qed
    ultimately show ?thesis using Suc by simp
  next
    case 0
    show ?thesis
    proof (cases "match_at re (c # s)")
      case None
      then have "f (c # s) = None" using f [of "c # s"] by simp
      moreover have "scan re 0 s = all_where f s"
        by (rule Cons.IH [OF excl']) simp_all
      ultimately show ?thesis using 0 None by simp
    next
      case (Some nr)
      obtain n r where nr: "nr = (n, r)" by (cases nr)
      have fr: "f (c # s) = Some r" using f [of "c # s"] Some nr by simp
      have "scan re (n - 1) s = all_where f s"
      proof (rule Cons.IH [OF excl'])
        fix j assume "j < n - 1"
        then have "0 < Suc j" "Suc j < n" by simp_all
        from Cons.prems(1) [of 0 n r "Suc j"] Some nr this
        show "f (drop j s) = None" by simp
      qed
      with 0 Some nr fr show ?thesis by simp
    qed
  qed
qed

lemma findall_all_where:
  assumes "\<And>t. map_option snd (match_at re t) = f t"
    and "\<And>i n r j. match_at re (drop i s) = Some (n, r) \<Longrightarrow> 0 < j \<Longrightarrow> j < n
                 \<Longrightarrow> f (drop (i + j) s) = None"
  shows "findall re s = all_where f s"
  unfolding findall_def by (rule scan_all_where [OF assms]) simp_all

lemma mac_grammar_length: "mac_grammar m \<Longrightarrow> length m = 14"
  by (auto simp: mac_grammar_def hex4_def)

lemma all_where_mac: "all_where mac_at s = map (\<lambda>p. take 14 (drop p s)) (mac_positions s)"
proof (induction s)
  case Nil
  then show ?case by (simp add: mac_positions_def mac_at_def mac_grammar_def hex4_def)
next
  case (Cons c s)
  have up: "[0..<length (c # s)] = 0 # map Suc [0..<length s]"
    by (simp add: upt_conv_Cons map_Suc_upt del: upt_Suc)
  have "mac_positions (c # s) =
          (if mac_grammar (take 14 (c # s)) then [0] else []) @ map Suc (mac_positions s)"
    unfolding mac_positions_def up by (simp add: filter_map comp_def)
  with Cons show ?case by (simp add: mac_at_def comp_def)
qed

lemma non_overlapping_apart:
  assumes "sorted_wrt (<) ps" and "non_overlapping ps"
    and "p \<in> set ps" and "q \<in> set ps" and "p < q"
  shows "p + 14 \<le> q"
  using assms
proof (induction ps rule: non_overlapping.induct)
  case (1 a b ps)
  show ?case
  proof (cases "p = a")
    case True
    with 1 have "q \<in> set (b # ps)" by auto
    with 1(2) have "b \<le> q" by auto
    with 1(3) True show ?thesis by simp
  next
    case False
    with 1 have "p \<in> set (b # ps)" by simp
    moreover with 1(2,6) have "q \<noteq> a" by auto
    with 1 have "q \<in> set (b # ps)" by simp
    ultimately show ?thesis using 1 by simp
  qed
qed auto

lemma findall_mac:
  assumes "non_overlapping (mac_positions s)"
  shows "findall mac_re s = map (\<lambda>p. take 14 (drop p s)) (mac_positions s)"
proof -
  have f: "\<And>t. map_option snd (match_at mac_re t) = mac_at t"
    by (simp add: match_at_mac mac_at_def)
  have pos: "i \<in> set (mac_positions s)" if "mac_grammar (take 14 (drop i s))" for i
  proof -
    from mac_grammar_length [OF that] have "i < length s" by (cases "i < length s") auto
    with that show ?thesis by (simp add: mac_positions_def)
  qed
  have sorted: "sorted_wrt (<) (mac_positions s)"
    unfolding mac_positions_def by (rule sorted_wrt_filter) simp
  have "findall mac_re s = all_where mac_at s"
  proof (rule findall_all_where [OF f])
    fix i n r j
    assume m: "match_at mac_re (drop i s) = Some (n, r)" and j: "0 < j" "j < n"
    from m have n: "n = 14" and gi: "mac_grammar (take 14 (drop i s))"
      by (auto simp: match_at_mac split: if_splits)
    show "mac_at (drop (i + j) s) = None"
    proof (rule ccontr)
      assume "mac_at (drop (i + j) s) \<noteq> None"
      then have gj: "mac_grammar (take 14 (drop (i + j) s))" by (simp add: mac_at_def split: if_splits)
      from non_overlapping_apart [OF sorted assms pos [OF gi] pos [OF gj]] j n
      show False by simp
    qed
  qed
  then show ?thesis by (simp add: all_where_mac)
qed

lemma count_after_prefix: "count_after label t = Some k \<Longrightarrow> prefix label t"
  by (simp add: count_after_def Let_def split: if_splits)

lemma count_after_Cons_other: "c \<noteq> a \<Longrightarrow> count_after (a # l) (c # t) = None"
  by (simp add: count_after_def Let_def)

lemma all_where_append_skip:
  assumes "\<And>i. i < length pre \<Longrightarrow> f (drop i pre @ m) = None"
  shows "all_where f (pre @ m) = all_where f m"
  using assms
proof (induction pre)
  case Nil
  then show ?case by simp
next
  case (Cons c pre)
  have "f ((c # pre) @ m) = None" using Cons.prems [of 0] by simp
  moreover have "all_where f (pre @ m) = all_where f m"
  proof (rule Cons.IH)
    fix i assume "i < length pre"
    then show "f (drop i pre @ m) = None" using Cons.prems [of "Suc i"] by simp
  qed
  ultimately show ?case by simp
qed

lemma contains_drop: "contains sub (drop i s) \<Longrightarrow> contains sub s"
proof (induction s arbitrary: i)
  case Nil
  then show ?case by simp
next
  case (Cons c s)
  then show ?case by (cases i) auto
qed

lemma prefix_contains: "prefix sub s \<Longrightarrow> contains sub s"
  by (cases s) auto

lemma no_straddle:
  assumes "a \<notin> set l" and "prefix (a # l) (t @ (a # l) @ r)" and "t \<noteq> []"
  shows "prefix (a # l) t"
proof -
  from assms(2) have "prefix (a # l) t \<or> (\<exists>us. a # l = t @ us \<and> prefix us ((a # l) @ r))"
    by (simp only: prefix_append)
  then consider "prefix (a # l) t"
    | us where "a # l = t @ us" "prefix us ((a # l) @ r)"
    by blast
  then show ?thesis
  proof cases
    case 1
    then show ?thesis .
  next
    case 2
    show ?thesis
    proof (cases us)
      case Nil
      with 2 show ?thesis by simp
    next
      case (Cons u us')
      with 2(2) have "u = a" by simp
      moreover from assms(3) 2(1) Cons obtain t' where "l = t' @ u # us'"
        by (cases t) auto
      ultimately show ?thesis using assms(1) by simp
    qed
  qed
qed

lemma all_where_count_absent:
  assumes "\<not> contains label s" and "label \<noteq> []"
  shows "all_where (count_after label) s = []"
  using assms(1)
proof (induction s)
  case Nil
  with assms(2) show ?case by (simp add: count_after_def Let_def)
next
  case (Cons c s)
  then have "\<not> prefix label (c # s)" "\<not> contains label s" by simp_all
  with Cons.IH show ?case using count_after_prefix [of label "c # s"]
    by (cases "count_after label (c # s)") auto
qed

lemma count_after_here:
  assumes "K \<noteq> []" and "list_all is_digit K"
  shows "count_after label (label @ K @ ''\<newline>'' @ post) = Some K"
proof -
  have "\<not> is_digit CHR ''\<newline>''" by (simp add: is_digit_def code_def)
  with assms(2) have "takeWhile is_digit (K @ ''\<newline>'' @ post) = K"
    by (simp add: takeWhile_append list_all_iff takeWhile_eq_all_conv [THEN iffD2])
  with assms(1) show ?thesis by (simp add: count_after_def Let_def)
qed

lemma all_where_count_one:
  assumes a: "a \<notin> set l" "\<not> is_digit a" "a \<noteq> CHR ''\<newline>''"
    and pre: "\<not> contains (a # l) pre" and post: "\<not> contains (a # l) post"
    and K: "K \<noteq> []" "list_all is_digit K"
  shows "all_where (count_after (a # l)) (pre @ (a # l) @ K @ ''\<newline>'' @ post) = [K]"
proof -
  let ?f = "count_after (a # l)"
  let ?m = "l @ K @ ''\<newline>''"
  let ?rest = "K @ ''\<newline>'' @ post"
  have 1: "all_where ?f (pre @ (a # l) @ ?rest) = all_where ?f ((a # l) @ ?rest)"
  proof (rule all_where_append_skip)
    fix i assume i: "i < length pre"
    show "?f (drop i pre @ (a # l) @ ?rest) = None"
    proof (rule ccontr)
      assume "?f (drop i pre @ (a # l) @ ?rest) \<noteq> None"
      then obtain k where "?f (drop i pre @ (a # l) @ ?rest) = Some k" by blast
      then have p: "prefix (a # l) (drop i pre @ (a # l) @ ?rest)"
        by (rule count_after_prefix)
      from i have ne: "drop i pre \<noteq> []" by simp
      from no_straddle [OF a(1) p ne] have "prefix (a # l) (drop i pre)" .
      then have "contains (a # l) (drop i pre)" by (rule prefix_contains)
      then have "contains (a # l) pre" by (rule contains_drop)
      with pre show False by simp
    qed
  qed
  have 2: "?f ((a # l) @ ?rest) = Some K"
    by (rule count_after_here [OF K])
  have "\<forall>c\<in>set K. is_digit c" using K(2) by (simp add: list_all_iff)
  with a have n: "a \<notin> set ?m" by auto
  have 3: "all_where ?f (?m @ post) = all_where ?f post"
  proof (rule all_where_append_skip)
    fix i assume i: "i < length ?m"
    then obtain c t where ct: "drop i ?m = c # t" by (cases "drop i ?m") auto
    then have "c \<in> set (drop i ?m)" by simp
    then have "c \<in> set ?m" by (rule in_set_dropD)
    with n have "c \<noteq> a" by blast
    then have "?f (c # (t @ post)) = None" by (rule count_after_Cons_other)
    then show "?f (drop i ?m @ post) = None" unfolding ct by simp
  qed
  have 4: "all_where ?f post = []" by (rule all_where_count_absent [OF post]) simp
  have e: "(a # l) @ ?rest = a # (?m @ post)" by simp
  have "all_where ?f ((a # l) @ ?rest) = K # all_where ?f (?m @ post)"
    using 2 unfolding e by simp
  with 1 3 4 show ?thesis by simp
qed

lemma drop_starts_in_tl:
  assumes "0 < j" and "drop j m = c # w"
  shows "c \<in> set (tl m)"
proof -
  from assms(1) obtain j' where "j = Suc j'" by (cases j) auto
  with assms(2) have "drop j' (tl m) = c # w" by (simp add: drop_Suc)
  then have "c \<in> set (drop j' (tl m))" by simp
  then show ?thesis by (rule in_set_dropD)
qed

lemma count_after_inside:
  assumes a: "a \<notin> set l" "\<not> is_digit a" "a \<noteq> CHR ''\<newline>''"
    and c: "count_after (a # l) t = Some r"
    and j: "0 < j" "j < length (a # l) + length r + 1"
  shows "count_after (a # l) (drop j t) = None"
proof -
  let ?L = "a # l"
  from c have p: "prefix ?L t" and r: "r = takeWhile is_digit (drop (length ?L) t)"
    and nl: "prefix ''\<newline>'' (drop (length r) (drop (length ?L) t))"
    by (auto simp: count_after_def Let_def split: if_splits)
  from p obtain u where u: "t = ?L @ u" by (auto simp: prefix_def)
  with r have r': "r = takeWhile is_digit u" by simp
  have "drop (length r) u = dropWhile is_digit u" unfolding r' by (rule drop_length_takeWhile)
  with nl u obtain v where "dropWhile is_digit u = ''\<newline>'' @ v" by (auto simp: prefix_def)
  with takeWhile_dropWhile_id [of is_digit u] have v: "u = r @ ''\<newline>'' @ v"
    unfolding r' by simp
  let ?m = "?L @ r @ ''\<newline>''"
  have t: "t = ?m @ v" using u v by simp
  have len: "j < length ?m" using j by simp
  have "set r \<subseteq> {c. is_digit c}" unfolding r' by (auto dest: set_takeWhileD)
  with a have S: "a \<notin> set (tl ?m)" by auto
  from len obtain c w where cw: "drop j ?m = c # w" by (cases "drop j ?m") auto
  have "c \<in> set (tl ?m)" using j(1) cw by (rule drop_starts_in_tl)
  with S have "c \<noteq> a" by auto
  moreover have "drop j t = c # w @ v"
  proof -
    have "drop j (?m @ v) = drop j ?m @ drop (j - length ?m) v" by (rule drop_append)
    also have "\<dots> = (c # w) @ v" unfolding cw using len by simp
    finally show ?thesis unfolding t by simp
  qed
  ultimately show ?thesis by (simp add: count_after_Cons_other)
qed

lemma findall_count:
  assumes a: "a \<notin> set l" "\<not> is_digit a" "a \<noteq> CHR ''\<newline>''"
  shows "findall (OneGroup [Lit (a # l)] [Rep Digit 1 None] [Lit ''\<newline>'']) s
           = all_where (count_after (a # l)) s"
proof (rule findall_all_where)
  fix t
  show "map_option snd (match_at (OneGroup [Lit (a # l)] [Rep Digit 1 None] [Lit ''\<newline>'']) t)
          = count_after (a # l) t"
    unfolding match_at_count by (simp add: option.map_comp comp_def option.map_ident)
next
  fix i n r j
  assume m: "match_at (OneGroup [Lit (a # l)] [Rep Digit 1 None] [Lit ''\<newline>'']) (drop i s)
               = Some (n, r)"
    and j: "0 < j" "j < n"
  from m obtain k where k: "count_after (a # l) (drop i s) = Some k"
    and nr: "(n, r) = (length (a # l) + length k + 1, k)"
    unfolding match_at_count by (cases "count_after (a # l) (drop i s)") auto
  from nr have "k = r" "n = length (a # l) + length r + 1" by simp_all
  with k j have "count_after (a # l) (drop j (drop i s)) = None"
    by (intro count_after_inside [OF a]) simp_all
  then show "count_after (a # l) (drop (i + j) s) = None"
    by (simp add: add.commute)
qed

lemma findall_session_count:
  "findall session_count_re s = all_where (count_after ''Session count = '') s"
  unfolding session_count_re_def
  by (rule findall_count) (simp_all add: is_digit_def code_def)

lemma findall_session_count_one:
  assumes "\<not> contains ''Session count = '' pre" and "\<not> contains ''Session count = '' post"
    and "K \<noteq> []" and "list_all is_digit K"
  shows "findall session_count_re (pre @ ''Session count = '' @ K @ ''\<newline>'' @ post) = [K]"
  unfolding findall_session_count
proof (rule all_where_count_one [OF _ _ _ assms])
  show "CHR ''S'' \<notin> set ''ession count = ''" by simp
  show "\<not> is_digit CHR ''S''" by (simp add: is_digit_def code_def)
  show "CHR ''S'' \<noteq> CHR ''\<newline>''" by simp
qed

lemma findall_session_count_absent:
  assumes "\<not> contains ''Session count = '' s"
  shows "findall session_count_re s = []"
  unfolding findall_session_count by (rule all_where_count_absent [OF assms]) simp

lemma findall_first:
  assumes "\<And>t. map_option snd (match_at re t) = f t"
  shows "(case findall re s of [] \<Rightarrow> None | x # xs \<Rightarrow> Some x) = first_where f s"
proof -
  have "(case scan re 0 s of [] \<Rightarrow> None | x # xs \<Rightarrow> Some x) = first_where f s"
  proof (induction s)
    case Nil
    show ?case using assms [of "[]", symmetric] by (cases "match_at re []") auto
  next
    case (Cons c s)
    show ?case using assms [of "c # s", symmetric] Cons
      by (cases "match_at re (c # s)") auto
  qed
  then show ?thesis by (simp add: findall_def)
qed

lemma findall_mac_first:
  "(case findall mac_re t of [] \<Rightarrow> None | x # xs \<Rightarrow> Some x) = first_where mac_at t"
  by (rule findall_first) (simp add: match_at_mac mac_at_def)

lemma findall_method_first:
  "(case findall method_re t of [] \<Rightarrow> None | x # xs \<Rightarrow> Some x) = first_where method_token t"
  by (rule findall_first) (rule match_at_method)

lemma dict_session_details_fields:
  "mac_address (dict_session_details each t) =
     (case first_where mac_at t of None \<Rightarrow> each | Some m \<Rightarrow> m)"
  "ip_address (dict_session_details each t) =
     (case first_where ipv4_at t of None \<Rightarrow> ''unknown'' | Some a \<Rightarrow> a)"
  "interface (dict_session_details each t) =
     (case first_where (after_label ''Interface: '') t of None \<Rightarrow> ''Unknown'' | Some r \<Rightarrow> r)"
  "user_name (dict_session_details each t) =
     (case first_where (after_label_spaces ''User-Name:'') t of None \<Rightarrow> ''Unknown'' | Some r \<Rightarrow> r)"
  "status (dict_session_details each t) =
     (case first_where (after_label ''Status:  '') t of None \<Rightarrow> ''Unknown'' | Some r \<Rightarrow> r)"
  "auth_method (dict_session_details each t) =
     (case first_where method_token t of None \<Rightarrow> ''Unknown'' | Some w \<Rightarrow> w)"
  "vendor (dict_session_details each t) = None"
proof -
  have m: "\<And>s. map_option snd (match_at mac_re s) = mac_at s"
    by (simp add: match_at_mac mac_at_def)
  show "mac_address (dict_session_details each t) =
     (case first_where mac_at t of None \<Rightarrow> each | Some m \<Rightarrow> m)"
    by (simp add: dict_session_details_def first_or_findall [OF m])
  show "ip_address (dict_session_details each t) =
     (case first_where ipv4_at t of None \<Rightarrow> ''unknown'' | Some a \<Rightarrow> a)"
    by (simp add: dict_session_details_def first_or_findall [OF match_at_ipv4])
  show "interface (dict_session_details each t) =
     (case first_where (after_label ''Interface: '') t of None \<Rightarrow> ''Unknown'' | Some r \<Rightarrow> r)"
    by (simp add: dict_session_details_def first_or_findall [OF match_at_interface])
  show "user_name (dict_session_details each t) =
     (case first_where (after_label_spaces ''User-Name:'') t of None \<Rightarrow> ''Unknown'' | Some r \<Rightarrow> r)"
    by (simp add: dict_session_details_def first_or_findall [OF match_at_username])
  show "status (dict_session_details each t) =
     (case first_where (after_label ''Status:  '') t of None \<Rightarrow> ''Unknown'' | Some r \<Rightarrow> r)"
    by (simp add: dict_session_details_def first_or_findall [OF match_at_status])
  show "auth_method (dict_session_details each t) =
     (case first_where method_token t of None \<Rightarrow> ''Unknown'' | Some w \<Rightarrow> w)"
    by (simp add: dict_session_details_def first_or_findall [OF match_at_method])
  show "vendor (dict_session_details each t) = None"
    by (simp add: dict_session_details_def)
qed

section \<open>Basic facts\<close>

lemma contains_iff: "contains sub s \<longleftrightarrow> (\<exists>pre post. s = pre @ sub @ post)"
proof (induction s)
  case Nil
  then show ?case by auto
next
  case (Cons c s)
  have "(\<exists>pre post. c # s = pre @ sub @ post) \<longleftrightarrow>
          prefix sub (c # s) \<or> (\<exists>pre post. s = pre @ sub @ post)"
    by (auto simp: prefix_def Cons_eq_append_conv) 
  with Cons show ?case by simp
qed

lemma detail_command_inj: "detail_command a = detail_command b \<longleftrightarrow> a = b"
  by (simp add: detail_command_def)

lemma detail_command_not_fixed:
  "detail_command m \<noteq> ''term len 0''" "detail_command m \<noteq> ''show access-session''"
  by (simp_all add: detail_command_def)

lemma lower_Unknown: "lower ''Unknown'' \<noteq> ''mab''"
proof
  assume "lower ''Unknown'' = ''mab''"
  then have "length (lower ''Unknown'') = length ''mab''" by simp
  then show False by (simp add: lower_def)
qed

lemma code_inj: "code a = code b \<Longrightarrow> a = b"
  by (simp add: code_def)

lemma lower_char_cases:
  assumes "lower_char c = x"
  shows "c = x \<or> code c + 32 = code x"
proof (cases "is_upper c")
  case False
  with assms show ?thesis by (simp add: lower_char_def)
next
  case True
  then have "code c + 32 < 256" by (auto simp: is_upper_def)
  moreover from assms True have "x = char_of (code c + 32)" by (simp add: lower_char_def)
  ultimately have "code x = code c + 32" by (simp add: code_def)
  then show ?thesis by simp
qed

lemma lower_char_m: "lower_char c = CHR ''m'' \<Longrightarrow> c = CHR ''m'' \<or> c = CHR ''M''"
proof -
  assume "lower_char c = CHR ''m''"
  from lower_char_cases [OF this] show ?thesis
  proof
    assume "code c + 32 = code CHR ''m''"
    then have "code c = code CHR ''M''" by (simp add: code_def)
    then show ?thesis by (simp add: code_inj)
  qed simp
qed

lemma lower_char_a: "lower_char c = CHR ''a'' \<Longrightarrow> c = CHR ''a'' \<or> c = CHR ''A''"
proof -
  assume "lower_char c = CHR ''a''"
  from lower_char_cases [OF this] show ?thesis
  proof
    assume "code c + 32 = code CHR ''a''"
    then have "code c = code CHR ''A''" by (simp add: code_def)
    then show ?thesis by (simp add: code_inj)
  qed simp
qed

lemma lower_char_b: "lower_char c = CHR ''b'' \<Longrightarrow> c = CHR ''b'' \<or> c = CHR ''B''"
proof -
  assume "lower_char c = CHR ''b''"
  from lower_char_cases [OF this] show ?thesis
  proof
    assume "code c + 32 = code CHR ''b''"
    then have "code c = code CHR ''B''" by (simp add: code_def)
    then show ?thesis by (simp add: code_inj)
  qed simp
qed

lemma lower_spellings:
  "lower ''mab'' = ''mab''" "lower ''maB'' = ''mab''" "lower ''mAb'' = ''mab''"
  "lower ''mAB'' = ''mab''" "lower ''Mab'' = ''mab''" "lower ''MaB'' = ''mab''"
  "lower ''MAb'' = ''mab''" "lower ''MAB'' = ''mab''"
  by code_simp+

lemma lower_eq_mab:
  "lower s = ''mab'' \<longleftrightarrow>
     s \<in> {''mab'', ''maB'', ''mAb'', ''mAB'', ''Mab'', ''MaB'', ''MAb'', ''MAB''}"
proof
  assume l: "lower s = ''mab''"
  then have "length s = 3" by (metis length_map lower_def length_Cons list.size(3) numeral_3_eq_3)
  then obtain a b c where s: "s = [a, b, c]"
    by (cases s; cases "tl s"; cases "tl (tl s)") auto
  with l have "lower_char a = CHR ''m''" "lower_char b = CHR ''a''" "lower_char c = CHR ''b''"
    by (simp_all add: lower_def)
  from lower_char_m [OF this(1)] lower_char_a [OF this(2)] lower_char_b [OF this(3)]
  show "s \<in> {''mab'', ''maB'', ''mAb'', ''mAB'', ''Mab'', ''MaB'', ''MAb'', ''MAB''}"
    unfolding s by auto
next
  assume "s \<in> {''mab'', ''maB'', ''mAb'', ''mAB'', ''Mab'', ''MaB'', ''MAb'', ''MAB''}"
  then show "lower s = ''mab''" using lower_spellings by auto
qed

subsection \<open>The method token\<close>

lemma first_where_append_skip:
  assumes "\<And>i. i < length pre \<Longrightarrow> f (drop i pre @ m) = None"
  shows "first_where f (pre @ m) = first_where f m"
  using assms
proof (induction pre)
  case Nil
  then show ?case by simp
next
  case (Cons c pre)
  have "f ((c # pre) @ m) = None" using Cons.prems [of 0] by simp
  moreover have "first_where f (pre @ m) = first_where f m"
  proof (rule Cons.IH)
    fix i assume "i < length pre"
    then show "f (drop i pre @ m) = None" using Cons.prems [of "Suc i"] by simp
  qed
  ultimately show ?case by simp
qed

lemma first_where_here: "f s = Some r \<Longrightarrow> first_where f s = Some r"
  by (cases s) auto

lemma first_where_absent:
  assumes "\<And>u. f u \<noteq> None \<Longrightarrow> contains sub u" and "\<not> contains sub s"
  shows "first_where f s = None"
  using assms(2)
proof (induction s)
  case Nil
  with assms(1) [of "[]"] show ?case by (cases "f []") auto
next
  case (Cons c s)
  then have "\<not> contains sub s" by simp
  moreover from Cons.prems assms(1) [of "c # s"] have "f (c # s) = None" by blast
  ultimately show ?case using Cons.IH by simp
qed

lemma contains_suffix: "suffix v s \<Longrightarrow> contains sub v \<Longrightarrow> contains sub s"
  by (auto simp: contains_iff suffix_def) (metis append.assoc)

lemma method_token_contains:
  assumes "method_token u \<noteq> None"
  shows "contains ''Authc'' u"
proof -
  let ?a = "dropWhile is_space (dropWhile is_word u)"
  from assms have "prefix ''Authc'' ?a"
    by (simp add: method_token_def Let_def split: if_splits)
  then have "contains ''Authc'' ?a" by (rule prefix_contains)
  moreover have "suffix ?a u"
    by (meson suffix_dropWhile suffix_order.trans)
  ultimately show ?thesis using contains_suffix by blast
qed

lemma Authc_chars: "x \<in> set ''Authc'' \<Longrightarrow> is_word x \<and> \<not> is_space x"
  by (auto simp: is_word_def is_space_def is_digit_def code_def)

lemma last_suffix: "suffix v s \<Longrightarrow> v \<noteq> [] \<Longrightarrow> last v = last s"
  by (auto simp: suffix_def)

lemma contains_append_left: "contains sub s \<Longrightarrow> contains sub (s @ t)"
proof -
  assume "contains sub s"
  then obtain p q where "s = p @ sub @ q" by (auto simp: contains_iff)
  then have "s @ t = p @ sub @ (q @ t)" by simp
  then show ?thesis unfolding contains_iff by blast
qed

lemma method_token_at_token:
  assumes w: "3 \<le> length w" "length w \<le> 5" "list_all is_word w"
    and sp: "sp \<noteq> []" "list_all (\<lambda>x. is_space x \<and> \<not> is_newline x) sp"
    and c: "is_space c"
  shows "method_token (w @ sp @ ''Authc'' @ c # post) = Some w"
proof -
  let ?rest = "sp @ ''Authc'' @ c # post"
  from sp obtain s0 sp' where s0: "sp = s0 # sp'" "is_space s0" by (cases sp) auto
  then have nw: "\<not> is_word s0" using word_not_space by blast
  have allw: "\<And>x. x \<in> set w \<Longrightarrow> is_word x" using w(3) by (simp add: list_all_iff)
  have alls: "\<And>x. x \<in> set sp \<Longrightarrow> is_space x" using sp(2) by (simp add: list_all_iff)
  have tw: "takeWhile is_word (w @ ?rest) = w"
    using allw nw s0(1) by (simp add: takeWhile_append2)
  have dw: "dropWhile is_word (w @ ?rest) = ?rest"
    using allw nw s0(1) by (simp add: dropWhile_append2)
  have A: "\<not> is_space CHR ''A''" by (simp add: is_space_def code_def)
  have ts: "takeWhile is_space ?rest = sp"
    using alls A by (simp add: takeWhile_append2)
  have ds: "dropWhile is_space ?rest = ''Authc'' @ c # post"
    using alls A by (simp add: dropWhile_append2)
  show ?thesis
    unfolding method_token_def tw dw ts ds Let_def using w sp(1) c by simp
qed

lemma method_token_not_before:
  assumes w: "w \<noteq> []" "list_all is_word w"
    and pre: "\<not> is_word (last pre)"
    and sp: "sp \<noteq> []" "list_all (\<lambda>x. is_space x \<and> \<not> is_newline x) sp"
    and first: "\<not> contains ''Authc'' (pre @ w)"
    and i: "i < length pre"
  shows "method_token (drop i pre @ w @ sp @ rest) = None"
proof (rule ccontr)
  let ?A = "''Authc''"
  let ?u = "drop i pre"
  let ?m = "w @ sp @ rest"
  assume "method_token (?u @ ?m) \<noteq> None"
  then have p: "prefix ?A (dropWhile is_space (dropWhile is_word (?u @ ?m)))"
    by (simp add: method_token_def Let_def split: if_splits)
  have u: "?u \<noteq> []" "suffix ?u pre" using i by (simp_all add: suffix_drop)
  then have lu: "last ?u = last pre" by (simp add: last_suffix)
  have "last ?u \<in> set ?u" using u(1) by (rule last_in_set)
  with pre lu have nonword: "\<exists>x\<in>set ?u. \<not> is_word x" by metis
  let ?r0 = "dropWhile is_word ?u"
  from nonword obtain x where "x \<in> set ?u" "\<not> is_word x" by blast
  then have r: "dropWhile is_word (?u @ ?m) = ?r0 @ ?m" by (rule dropWhile_append1)
  have r0: "?r0 \<noteq> []" using nonword by (simp add: dropWhile_eq_Nil_conv)
  have sr0: "suffix ?r0 pre" using u(2) suffix_dropWhile suffix_order.trans by blast
  have not_pre: "\<not> contains ?A pre"
    using first contains_append_left by blast
  have not_w: "\<not> contains ?A w"
    using first contains_suffix [of w "pre @ w" ?A] by (auto simp: suffix_def)
  show False
  proof (cases "\<exists>y\<in>set ?r0. \<not> is_space y")
    case True
    then obtain y where "y \<in> set ?r0" "\<not> is_space y" by blast
    then have a: "dropWhile is_space (?r0 @ ?m) = dropWhile is_space ?r0 @ ?m"
      by (rule dropWhile_append1)
    let ?v = "dropWhile is_space ?r0"
    have v: "?v \<noteq> []" using True by (simp add: dropWhile_eq_Nil_conv)
    have sv: "suffix ?v pre" using sr0 suffix_dropWhile suffix_order.trans by blast
    from p have "prefix ?A (?v @ ?m)" unfolding r a .
    then have "prefix ?A ?v \<or> (\<exists>us. ?A = ?v @ us \<and> prefix us ?m)"
      by (simp only: prefix_append)
    then show False
    proof
      assume "prefix ?A ?v"
      then have "contains ?A ?v" by (rule prefix_contains)
      with sv have "contains ?A pre" by (rule contains_suffix)
      with not_pre show False by simp
    next
      assume "\<exists>us. ?A = ?v @ us \<and> prefix us ?m"
      then obtain us where "?A = ?v @ us" by blast
      then have "set ?v \<subseteq> set ?A" by (metis set_append Un_upper1)
      moreover have "last ?v \<in> set ?v" using v by simp
      ultimately have "is_word (last ?v)" using Authc_chars by blast
      moreover have "last ?v = last pre" using sv v by (rule last_suffix)
      ultimately show False using pre by simp
    qed
  next
    case False
    then have "\<And>y. y \<in> set ?r0 \<Longrightarrow> is_space y" by blast
    then have a: "dropWhile is_space (?r0 @ ?m) = dropWhile is_space ?m"
      by (rule dropWhile_append2)
    from w obtain w0 w' where w0: "w = w0 # w'" "is_word w0" by (cases w) auto
    then have "\<not> is_space w0" using word_not_space by blast
    with w0(1) have "dropWhile is_space ?m = ?m" by simp
    with p have "prefix ?A (w @ sp @ rest)" unfolding r a by simp
    then have "prefix ?A w \<or> (\<exists>us. ?A = w @ us \<and> prefix us (sp @ rest))"
      by (simp only: prefix_append)
    then show False
    proof
      assume "prefix ?A w"
      then have "contains ?A w" by (rule prefix_contains)
      with not_w show False by simp
    next
      assume "\<exists>us. ?A = w @ us \<and> prefix us (sp @ rest)"
      then obtain us where us: "?A = w @ us" "prefix us (sp @ rest)" by blast
      show False
      proof (cases us)
        case Nil
        with us(1) have "prefix ?A w" by simp
        then have "contains ?A w" by (rule prefix_contains)
        with not_w show False by simp
      next
        case (Cons z zs)
        from sp obtain s0 sp' where s0: "sp = s0 # sp'" "is_space s0" by (cases sp) auto
        with us(2) Cons have "z = s0" by simp
        moreover have "z \<in> set ?A" unfolding us(1) Cons by simp
        ultimately show False using s0(2) Authc_chars by blast
      qed
    qed
  qed
qed

lemma first_where_method_token:
  assumes w: "3 \<le> length w" "length w \<le> 5" "list_all is_word w"
    and pre: "pre = [] \<or> \<not> is_word (last pre)"
    and sp: "sp \<noteq> []" "list_all (\<lambda>x. is_space x \<and> \<not> is_newline x) sp"
    and c: "is_space c"
    and first: "\<not> contains ''Authc'' (pre @ w)"
  shows "first_where method_token (pre @ w @ sp @ ''Authc'' @ c # post) = Some w"
proof -
  let ?m = "w @ sp @ ''Authc'' @ c # post"
  have "method_token ?m = Some w" by (rule method_token_at_token [OF w sp c])
  then have here: "first_where method_token ?m = Some w" by (rule first_where_here)
  have "first_where method_token (pre @ ?m) = first_where method_token ?m"
  proof (rule first_where_append_skip)
    fix i assume i: "i < length pre"
    then have "pre \<noteq> []" by auto
    with pre have nw: "\<not> is_word (last pre)" by simp
    from w(1) have "w \<noteq> []" by auto
    from method_token_not_before [OF this w(3) nw sp first i]
    show "method_token (drop i pre @ ?m) = None" .
  qed
  with here show ?thesis by simp
qed

lemma first_where_method_token_absent:
  "\<not> contains ''Authc'' t \<Longrightarrow> first_where method_token t = None"
  by (rule first_where_absent [of method_token "''Authc''"]) (rule method_token_contains)

subsection \<open>The vendor query, case by case\<close>

lemma vendor_lookup_no_method:
  "vendor_lookup e [] mac d tr = (Inr d, tr)"
  by (simp add: vendor_lookup_def)

lemma vendor_lookup_not_mab:
  "lower m \<noteq> ''mab'' \<Longrightarrow> vendor_lookup e (m # ms) mac d tr = (Inr d, tr)"
  by (simp add: vendor_lookup_def)

lemma vendor_lookup_no_mac:
  "lower m = ''mab'' \<Longrightarrow> vendor_lookup e (m # ms) [] d tr = (Inl IndexError, tr)"
  by (simp add: vendor_lookup_def)

lemma vendor_lookup_response:
  assumes "lower m = ''mab''"
    and "http_reply e tr (''https://api.macvendors.com/'' @ a) = Response status_code body"
  shows "vendor_lookup e (m # ms) (a # as) d tr =
           (Inr (d\<lparr>vendor := Some (if status_code = 200 then body else ''Unknown'')\<rparr>),
            tr @ [HttpGet (''https://api.macvendors.com/'' @ a) (Response status_code body), Sleep 1])"
  using assms by (simp add: vendor_lookup_def requests_get_def Let_def)

lemma vendor_lookup_exception:
  assumes "lower m = ''mab''"
    and "http_reply e tr (''https://api.macvendors.com/'' @ a) = RequestException"
  shows "vendor_lookup e (m # ms) (a # as) d tr =
           (Inr (d\<lparr>vendor := Some ''Unknown''\<rparr>),
            tr @ [HttpGet (''https://api.macvendors.com/'' @ a) RequestException])"
  using assms by (simp add: vendor_lookup_def requests_get_def Let_def)

lemma vendor_lookup_log:
  assumes "vendor_lookup e meth mac d tr = (r, tr')"
  shows "\<exists>new. tr' = tr @ new \<and> list_all query_event new \<and> (\<forall>c x. SendCommand c x \<notin> set new)"
  using assms
  by (auto simp: vendor_lookup_def requests_get_def Let_def query_event_def split: step_splits)

lemma vendor_lookup_returns:
  assumes "mac \<noteq> [] \<or> (case meth of [] \<Rightarrow> True | m # ms \<Rightarrow> lower m \<noteq> ''mab'')"
  shows "\<exists>v tr'. vendor_lookup e meth mac d tr = (Inr (d\<lparr>vendor := v\<rparr>), tr')"
proof (cases meth)
  case Nil
  have "d = d\<lparr>vendor := vendor d\<rparr>" by simp
  with Nil show ?thesis using vendor_lookup_no_method [of e mac d tr] by metis
next
  case (Cons m ms)
  show ?thesis
  proof (cases "lower m = ''mab''")
    case False
    have "d = d\<lparr>vendor := vendor d\<rparr>" by simp
    with Cons False show ?thesis using vendor_lookup_not_mab [of m e ms mac d tr] by metis
  next
    case True
    with assms Cons obtain a as where mac: "mac = a # as" by (cases mac) auto
    show ?thesis
    proof (cases "http_reply e tr (''https://api.macvendors.com/'' @ a)")
      case (Response status_code body)
      from vendor_lookup_response [OF True Response] show ?thesis unfolding Cons mac by blast
    next
      case RequestException
      from vendor_lookup_exception [OF True RequestException] show ?thesis unfolding Cons mac by blast
    qed
  qed
qed

subsection \<open>One iteration, case by case\<close>

lemma details_step_raises:
  assumes "command_reply e tr (detail_command each) = CommandRaises"
  shows "details_step e each (dev, tr) =
           (Inl CommandError, dev, tr @ [SendCommand (detail_command each) CommandRaises])"
  using assms by (simp add: details_step_def send_command_def Let_def)

lemma details_step_passed:
  assumes "command_reply e tr (detail_command each) = Output t" and "\<not> is_failure t"
  shows "details_step e each (dev, tr) =
           (Inr (), dev, tr @ [SendCommand (detail_command each) (Output t)])"
  using assms by (simp add: details_step_def send_command_def Let_def)

lemma details_step_failed:
  assumes "command_reply e tr (detail_command each) = Output t" and "is_failure t"
  shows "details_step e each (dev, tr) =
           (case vendor_lookup e (findall method_re t) (findall mac_re t)
                   (dict_session_details each t)
                   (tr @ [SendCommand (detail_command each) (Output t)]) of
              (Inl err, tr2) \<Rightarrow> (Inl err, dev, tr2)
            | (Inr d, tr2) \<Rightarrow>
                (Inr (), dev\<lparr>dict_result := (dict_result dev)(each \<mapsto> d)\<rparr>, tr2))"
  using assms by (simp add: details_step_def send_command_def Let_def)

lemma details_step_frame:
  assumes "details_step e each (dev, tr) = (r, dev', tr')"
  shows "current_ip_address dev' = current_ip_address dev \<and> connection dev' = connection dev
         \<and> session_count dev' = session_count dev \<and> mac_addresses dev' = mac_addresses dev
         \<and> (\<forall>k. k \<noteq> each \<longrightarrow> dict_result dev' k = dict_result dev k)
         \<and> dom (dict_result dev) \<subseteq> dom (dict_result dev')"
  using assms
  by (auto simp: details_step_def send_command_def Let_def split: step_splits)

lemma details_step_log:
  assumes "details_step e each (dev, tr) = (r, dev', tr')"
  shows "\<exists>new. tr' = tr @ new \<and> list_all query_event new"
  using assms
  by (auto simp: details_step_def send_command_def Let_def query_event_def
           split: step_splits dest!: vendor_lookup_log)

lemma details_step_queries:
  assumes "details_step e each (dev, tr) = (r, dev', tr')"
  shows "\<exists>x new. tr' = tr @ SendCommand (detail_command each) x # new
                 \<and> (\<forall>c y. SendCommand c y \<notin> set new) \<and> (r = Inr () \<longrightarrow> x \<noteq> CommandRaises)"
proof (cases "command_reply e tr (detail_command each)")
  case CommandRaises
  with assms show ?thesis by (auto simp: details_step_raises)
next
  case (Output t)
  show ?thesis
  proof (cases "is_failure t")
    case False
    with assms Output show ?thesis by (auto simp: details_step_passed)
  next
    case True
    obtain vr tr2 where v: "vendor_lookup e (findall method_re t) (findall mac_re t)
             (dict_session_details each t)
             (tr @ [SendCommand (detail_command each) (Output t)]) = (vr, tr2)"
      by (cases "vendor_lookup e (findall method_re t) (findall mac_re t)
             (dict_session_details each t)
             (tr @ [SendCommand (detail_command each) (Output t)])") auto
    from vendor_lookup_log [OF v] obtain new where
      "tr2 = (tr @ [SendCommand (detail_command each) (Output t)]) @ new"
      "\<forall>c y. SendCommand c y \<notin> set new" by blast
    moreover from assms Output True v have "tr' = tr2"
      by (simp add: details_step_failed split: sum.splits)
    ultimately show ?thesis by simp
  qed
qed

lemma details_step_dom:
  assumes "details_step e each (dev, tr) = (Inr u, dev', tr')"
  shows "\<exists>new. tr' = tr @ new \<and>
           (\<forall>m. m \<in> dom (dict_result dev') \<longleftrightarrow>
                  m \<in> dom (dict_result dev) \<or>
                  (\<exists>text. SendCommand (detail_command m) (Output text) \<in> set new \<and> is_failure text))"
  using assms
  by (auto simp: details_step_def send_command_def Let_def detail_command_inj
           split: step_splits dest!: vendor_lookup_log)

lemma details_step_error:
  assumes "details_step e each (dev, tr) = (Inl err, dev', tr')"
  shows "err = CommandError \<or> err = IndexError"
  using assms
  by (auto simp: details_step_def send_command_def vendor_lookup_def requests_get_def Let_def
           split: step_splits)

subsection \<open>The loop\<close>

lemma details_loop_frame:
  assumes "details_loop e macs (dev, tr) = (r, dev', tr')"
  shows "current_ip_address dev' = current_ip_address dev \<and> connection dev' = connection dev
         \<and> session_count dev' = session_count dev \<and> mac_addresses dev' = mac_addresses dev
         \<and> (\<forall>k. k \<notin> set macs \<longrightarrow> dict_result dev' k = dict_result dev k)
         \<and> dom (dict_result dev) \<subseteq> dom (dict_result dev')"
  using assms
proof (induction macs arbitrary: dev tr)
  case Nil
  then show ?case by simp
next
  case (Cons each rest)
  obtain r1 dev1 tr1 where s: "details_step e each (dev, tr) = (r1, dev1, tr1)"
    by (cases "details_step e each (dev, tr)") auto
  note f = details_step_frame [OF s]
  show ?case
  proof (cases r1)
    case (Inl err)
    with Cons.prems s have "dev' = dev1" by simp
    with f show ?thesis by auto
  next
    case (Inr u)
    with Cons.prems s have "details_loop e rest (dev1, tr1) = (r, dev', tr')" by simp
    from Cons.IH [OF this] f show ?thesis by (auto simp: subset_iff) 
  qed
qed

lemma details_loop_log:
  assumes "details_loop e macs (dev, tr) = (r, dev', tr')"
  shows "\<exists>new. tr' = tr @ new \<and> list_all query_event new"
  using assms
proof (induction macs arbitrary: dev tr)
  case Nil
  then show ?case by simp
next
  case (Cons each rest)
  obtain r1 dev1 tr1 where s: "details_step e each (dev, tr) = (r1, dev1, tr1)"
    by (cases "details_step e each (dev, tr)") auto
  from details_step_log [OF s] obtain n1 where n1: "tr1 = tr @ n1" "list_all query_event n1"
    by blast
  show ?case
  proof (cases r1)
    case (Inl err)
    with Cons.prems s have "tr' = tr1" by simp
    with n1 show ?thesis by blast
  next
    case (Inr u)
    with Cons.prems s have "details_loop e rest (dev1, tr1) = (r, dev', tr')" by simp
    from Cons.IH [OF this] obtain n2 where "tr' = tr1 @ n2" "list_all query_event n2" by blast
    with n1 have "tr' = tr @ (n1 @ n2) \<and> list_all query_event (n1 @ n2)" by simp
    then show ?thesis by blast
  qed
qed

lemma details_loop_queries:
  assumes "details_loop e macs (dev, tr) = (Inr u, dev', tr')"
  shows "\<exists>new. tr' = tr @ new \<and>
           (\<forall>m\<in>set macs. \<exists>t. SendCommand (detail_command m) (Output t) \<in> set new) \<and>
           (\<forall>m y. SendCommand (detail_command m) y \<in> set new \<longrightarrow> m \<in> set macs)"
  using assms
proof (induction macs arbitrary: dev tr)
  case Nil
  then show ?case by simp
next
  case (Cons each rest)
  obtain r1 dev1 tr1 where s: "details_step e each (dev, tr) = (r1, dev1, tr1)"
    by (cases "details_step e each (dev, tr)") auto
  show ?case
  proof (cases r1)
    case (Inl err)
    with Cons.prems s show ?thesis by simp
  next
    case (Inr u1)
    with Cons.prems s have l: "details_loop e rest (dev1, tr1) = (Inr u, dev', tr')" by simp
    from details_step_queries [OF s] Inr obtain x n1 where
      n1: "tr1 = tr @ SendCommand (detail_command each) x # n1"
          "\<forall>c y. SendCommand c y \<notin> set n1" "x \<noteq> CommandRaises"
      by auto
    from n1(3) obtain t where x: "x = Output t" by (cases x) auto
    from Cons.IH [OF l] obtain n2 where n2: "tr' = tr1 @ n2"
      "\<forall>m\<in>set rest. \<exists>t. SendCommand (detail_command m) (Output t) \<in> set n2"
      "\<forall>m y. SendCommand (detail_command m) y \<in> set n2 \<longrightarrow> m \<in> set rest"
      by blast
    let ?new = "SendCommand (detail_command each) (Output t) # n1 @ n2"
    have "tr' = tr @ ?new" using n1(1) n2(1) x by simp
    moreover have "\<forall>m\<in>set (each # rest). \<exists>t. SendCommand (detail_command m) (Output t) \<in> set ?new"
      using n2(2) by auto
    moreover have "\<forall>m y. SendCommand (detail_command m) y \<in> set ?new \<longrightarrow> m \<in> set (each # rest)"
      using n2(3) n1(2) by (auto simp: detail_command_inj)
    ultimately show ?thesis by blast
  qed
qed

lemma details_loop_dom:
  assumes "details_loop e macs (dev, tr) = (Inr u, dev', tr')"
  shows "\<exists>new. tr' = tr @ new \<and>
           (\<forall>m. m \<in> dom (dict_result dev') \<longleftrightarrow>
                  m \<in> dom (dict_result dev) \<or>
                  (\<exists>text. SendCommand (detail_command m) (Output text) \<in> set new \<and> is_failure text))"
  using assms
proof (induction macs arbitrary: dev tr)
  case Nil
  then show ?case by simp
next
  case (Cons each rest)
  obtain r1 dev1 tr1 where s: "details_step e each (dev, tr) = (r1, dev1, tr1)"
    by (cases "details_step e each (dev, tr)") auto
  show ?case
  proof (cases r1)
    case (Inl err)
    with Cons.prems s show ?thesis by simp
  next
    case (Inr u1)
    with Cons.prems s have l: "details_loop e rest (dev1, tr1) = (Inr u, dev', tr')" by simp
    from details_step_dom [OF s [unfolded Inr]] obtain n1 where n1: "tr1 = tr @ n1"
      "\<And>m. m \<in> dom (dict_result dev1) \<longleftrightarrow>
                  m \<in> dom (dict_result dev) \<or>
                  (\<exists>text. SendCommand (detail_command m) (Output text) \<in> set n1 \<and> is_failure text)"
      by blast
    from Cons.IH [OF l] obtain n2 where n2: "tr' = tr1 @ n2"
      "\<And>m. m \<in> dom (dict_result dev') \<longleftrightarrow>
                  m \<in> dom (dict_result dev1) \<or>
                  (\<exists>text. SendCommand (detail_command m) (Output text) \<in> set n2 \<and> is_failure text)"
      by blast
    have "tr' = tr @ (n1 @ n2)" using n1(1) n2(1) by simp
    moreover have "\<forall>m. m \<in> dom (dict_result dev') \<longleftrightarrow>
                  m \<in> dom (dict_result dev) \<or>
                  (\<exists>text. SendCommand (detail_command m) (Output text) \<in> set (n1 @ n2) \<and> is_failure text)"
      unfolding n2(2) n1(2) by auto
    ultimately show ?thesis by blast
  qed
qed

lemma details_loop_error:
  assumes "details_loop e macs (dev, tr) = (Inl err, dev', tr')"
  shows "err = CommandError \<or> err = IndexError"
  using assms
proof (induction macs arbitrary: dev tr)
  case Nil
  then show ?case by simp
next
  case (Cons each rest)
  obtain r1 dev1 tr1 where s: "details_step e each (dev, tr) = (r1, dev1, tr1)"
    by (cases "details_step e each (dev, tr)") auto
  show ?case
  proof (cases r1)
    case (Inl err1)
    with Cons.prems s have "err1 = err" by simp
    with details_step_error s Inl show ?thesis by blast
  next
    case (Inr u1)
    with Cons.prems s have "details_loop e rest (dev1, tr1) = (Inl err, dev', tr')" by simp
    from Cons.IH [OF this] show ?thesis .
  qed
qed

subsection \<open>The vendor of an entry\<close>

lemma vendor_ok_mono: "vendor_ok tr d \<Longrightarrow> vendor_ok (tr @ new) d"
  by (auto simp: vendor_ok_def)

lemma vendor_lookup_ok:
  assumes "vendor_lookup e (findall method_re text) (findall mac_re text)
             (dict_session_details each text) tr = (Inr d, tr')"
  shows "vendor_ok tr' d"
proof (cases "findall method_re text")
  case Nil
  with assms have "d = dict_session_details each text" by (simp add: vendor_lookup_no_method)
  with Nil show ?thesis
    by (simp add: vendor_ok_def dict_session_details_def first_or_def lower_Unknown)
next
  case (Cons m ms)
  show ?thesis
  proof (cases "lower m = ''mab''")
    case False
    with assms Cons have "d = dict_session_details each text"
      by (simp add: vendor_lookup_not_mab)
    with Cons False show ?thesis
      by (simp add: vendor_ok_def dict_session_details_def first_or_def)
  next
    case True
    show ?thesis
    proof (cases "findall mac_re text")
      case Nil
      with assms Cons True show ?thesis by (simp add: vendor_lookup_no_mac)
    next
      case mac: (Cons a as)
      show ?thesis
      proof (cases "http_reply e tr (''https://api.macvendors.com/'' @ a)")
        case (Response status_code body)
        from assms [unfolded Cons mac vendor_lookup_response [OF True Response]]
        have "d = (dict_session_details each text)
                    \<lparr>vendor := Some (if status_code = 200 then body else ''Unknown'')\<rparr>"
          and "HttpGet (''https://api.macvendors.com/'' @ a) (Response status_code body) \<in> set tr'"
          by auto
        then show ?thesis using Cons mac True unfolding vendor_ok_def
          by (intro conjI allI impI exI [of _ "Response status_code body"])
             (simp_all add: dict_session_details_def first_or_def)
      next
        case RequestException
        from assms [unfolded Cons mac vendor_lookup_exception [OF True RequestException]]
        have "d = (dict_session_details each text)\<lparr>vendor := Some ''Unknown''\<rparr>"
          and "HttpGet (''https://api.macvendors.com/'' @ a) RequestException \<in> set tr'"
          by auto
        then show ?thesis using Cons mac True unfolding vendor_ok_def
          by (intro conjI allI impI exI [of _ RequestException])
             (simp_all add: dict_session_details_def first_or_def)
      qed
    qed
  qed
qed

lemma details_step_vendor:
  assumes "details_step e each (dev, tr) = (r, dev', tr')"
    and "\<forall>m d. dict_result dev m = Some d \<longrightarrow> vendor_ok tr d"
  shows "\<forall>m d. dict_result dev' m = Some d \<longrightarrow> vendor_ok tr' d"
proof -
  from details_step_log [OF assms(1)] obtain new where new: "tr' = tr @ new" by blast
  have old: "\<forall>m d. dict_result dev m = Some d \<longrightarrow> vendor_ok tr' d"
    using assms(2) vendor_ok_mono unfolding new by blast
  show ?thesis
  proof (cases "command_reply e tr (detail_command each)")
    case CommandRaises
    with assms(1) have "dev' = dev" by (simp add: details_step_raises)
    with old show ?thesis by simp
  next
    case (Output t)
    show ?thesis
    proof (cases "is_failure t")
      case False
      with assms(1) Output have "dev' = dev" by (simp add: details_step_passed)
      with old show ?thesis by simp
    next
      case True
      obtain vr tr2 where v: "vendor_lookup e (findall method_re t) (findall mac_re t)
             (dict_session_details each t)
             (tr @ [SendCommand (detail_command each) (Output t)]) = (vr, tr2)"
        by (cases "vendor_lookup e (findall method_re t) (findall mac_re t)
             (dict_session_details each t)
             (tr @ [SendCommand (detail_command each) (Output t)])") auto
      show ?thesis
      proof (cases vr)
        case (Inl err)
        with assms(1) Output True v have "dev' = dev"
          by (simp add: details_step_failed)
        with old show ?thesis by simp
      next
        case (Inr d)
        with assms(1) Output True v
        have "dev' = dev\<lparr>dict_result := (dict_result dev)(each \<mapsto> d)\<rparr>" "tr' = tr2"
          by (simp_all add: details_step_failed)
        moreover from vendor_lookup_ok [OF v [unfolded Inr]] have "vendor_ok tr2 d" .
        ultimately show ?thesis using old by simp
      qed
    qed
  qed
qed

lemma details_loop_vendor:
  assumes "details_loop e macs (dev, tr) = (r, dev', tr')"
    and "\<forall>m d. dict_result dev m = Some d \<longrightarrow> vendor_ok tr d"
  shows "\<forall>m d. dict_result dev' m = Some d \<longrightarrow> vendor_ok tr' d"
  using assms
proof (induction macs arbitrary: dev tr)
  case Nil
  then show ?case by simp
next
  case (Cons each rest)
  obtain r1 dev1 tr1 where s: "details_step e each (dev, tr) = (r1, dev1, tr1)"
    by (cases "details_step e each (dev, tr)") auto
  note v = details_step_vendor [OF s Cons.prems(2)]
  show ?case
  proof (cases r1)
    case (Inl err)
    with Cons.prems(1) s have "dev' = dev1" "tr' = tr1" by simp_all
    with v show ?thesis by simp
  next
    case (Inr u1)
    with Cons.prems(1) s have "details_loop e rest (dev1, tr1) = (r, dev', tr')" by simp
    from Cons.IH [OF this v] show ?thesis .
  qed
qed

subsection \<open>The run\<close>

text \<open>
  The five ways a run can go.
\<close>

lemma main_cases:
  obtains
    (open_fails) "connect_reply e [] ip \<noteq> Connected"
      "main e ip = (Inl ConnectionError, [Connect ip (connect_reply e [] ip)])"
  | (paging_fails) "main e ip = (Inl CommandError,
        [Connect ip Connected, SendCommand ''term len 0'' CommandRaises])"
  | (inventory_fails) x where "main e ip = (Inl CommandError,
        [Connect ip Connected, SendCommand ''term len 0'' (Output x),
         SendCommand ''show access-session'' CommandRaises])"
  | (details_fail) x inventory err dev new where
      "details_loop e (findall mac_re inventory)
         (connected_device ip inventory, preamble ip x inventory)
       = (Inl err, dev, preamble ip x inventory @ new)"
      "main e ip = (Inl err, preamble ip x inventory @ new)"
  | (completed) x inventory dev new ok where
      "details_loop e (findall mac_re inventory)
         (connected_device ip inventory, preamble ip x inventory)
       = (Inr (), dev, preamble ip x inventory @ new)"
      "main e ip = (if ok then Inr (dict_result dev) else Inl OSError,
                    preamble ip x inventory @ new @ [Disconnect, WriteFile ''static/result.json'' ok])"
proof (cases "connect_reply e [] ip = Connected")
  case False
  then have "main e ip = (Inl ConnectionError, [Connect ip (connect_reply e [] ip)])"
    by (cases "connect_reply e [] ip")
       (simp_all add: main_def init_connection_ssh_def try_to_connect_ssh_def Device_def Let_def)
  with False show ?thesis by (rule open_fails)
next
  case True
  then have i: "init_connection_ssh e (Device ip, []) =
      (Inr (), \<lparr>current_ip_address = ip, dict_result = Map.empty, connection = Some (Handle ip),
                session_count = [], mac_addresses = []\<rparr>, [Connect ip Connected])"
    by (simp add: init_connection_ssh_def try_to_connect_ssh_def Device_def Let_def)
  show ?thesis
  proof (cases "command_reply e [Connect ip Connected] ''term len 0''")
    case CommandRaises
    with i have "main e ip = (Inl CommandError,
        [Connect ip Connected, SendCommand ''term len 0'' CommandRaises])"
      by (simp add: main_def collect_active_sessions_def send_command_def Let_def)
    then show ?thesis by (rule paging_fails)
  next
    case (Output x)
    show ?thesis
    proof (cases "command_reply e [Connect ip Connected, SendCommand ''term len 0'' (Output x)]
                    ''show access-session''")
      case CommandRaises
      with i Output have "main e ip = (Inl CommandError,
        [Connect ip Connected, SendCommand ''term len 0'' (Output x),
         SendCommand ''show access-session'' CommandRaises])"
        by (simp add: main_def collect_active_sessions_def send_command_def Let_def)
      then show ?thesis by (rule inventory_fails)
    next
      case (Output inventory)
      with i \<open>command_reply e [Connect ip Connected] ''term len 0'' = Output x\<close>
      have c: "collect_active_sessions e
                 (\<lparr>current_ip_address = ip, dict_result = Map.empty, connection = Some (Handle ip),
                   session_count = [], mac_addresses = []\<rparr>, [Connect ip Connected])
               = (Inr (), connected_device ip inventory, preamble ip x inventory)"
        by (simp add: collect_active_sessions_def send_command_def Let_def connected_device_def
              preamble_def)
      obtain r dev tr where l: "details_loop e (findall mac_re inventory)
         (connected_device ip inventory, preamble ip x inventory) = (r, dev, tr)"
        by (cases "details_loop e (findall mac_re inventory)
         (connected_device ip inventory, preamble ip x inventory)") auto
      from details_loop_log [OF l] obtain new where new: "tr = preamble ip x inventory @ new"
        by blast
      from details_loop_frame [OF l] have conn: "connection dev = Some (Handle ip)"
        by (simp add: connected_device_def)
      have d: "collect_active_sessions_details e
                 (connected_device ip inventory, preamble ip x inventory) = (r, dev, tr)"
        using l by (simp add: collect_active_sessions_details_def connected_device_def)
      show ?thesis
      proof (cases r)
        case (Inl err)
        with i c d new have "main e ip = (Inl err, preamble ip x inventory @ new)"
          by (simp add: main_def)
        with l [unfolded new Inl] show ?thesis by (rule details_fail)
      next
        case (Inr u)
        with i c d new conn have "main e ip =
            (if open_reply e (tr @ [Disconnect]) ''static/result.json''
             then Inr (dict_result dev) else Inl OSError,
             preamble ip x inventory @ new @
               [Disconnect, WriteFile ''static/result.json''
                              (open_reply e (tr @ [Disconnect]) ''static/result.json'')])"
          by (simp add: main_def close_connection_def get_result_def Let_def)
        with l [unfolded new Inr] show ?thesis using completed by simp
      qed
    qed
  qed
qed

lemma preamble_no_detail:
  "SendCommand (detail_command m) r \<notin> set (preamble ip x inventory)"
  by (simp add: preamble_def detail_command_def)

section \<open>The inventory\<close>

text \<open>
  The example inventory has one MAC address, at position 8.
\<close>

lemma mac_positions_inventory_text: "mac_positions inventory_text = [8]"
  by (simp add: mac_positions_def inventory_text_def mac_grammar_def hex4_def char_defs upt_rec [of _ "numeral n" for n])

text \<open>
  C2. With an open connection and a switch that answers both commands,
  \<open>collect_active_sessions\<close> returns, and sets the session count and the MAC list from
  the inventory text, leaving the rest of the device as it was. The session count is
  the list of the digit strings of all the lines \<open>Session count = K\<close> of the text
  (digits \<open>K\<close>, ended by a newline), and nothing else. For a well-formed
  inventory it finds what the text holds: when the text has the line
  \<open>Session count = K\<close> (digits \<open>K\<close>, ended by a newline) and \<open>Session count = \<close>
  nowhere else, the count is the one string \<open>K\<close>; when the text has no
  \<open>Session count = \<close> at all, the count is empty; and when no two substrings of the
  MAC grammar overlap, the MAC list is the list of all of them, in the order of their
  positions.
\<close>

theorem collect_active_sessions_inventory:
  assumes "connection dev = Some h"
    and "command_reply e tr ''term len 0'' = Output x"
    and "command_reply e (tr @ [SendCommand ''term len 0'' (Output x)]) ''show access-session''
           = Output inventory"
  shows "\<exists>counts macs.
           collect_active_sessions e (dev, tr) =
             (Inr (), dev\<lparr>session_count := counts, mac_addresses := macs\<rparr>,
              tr @ [SendCommand ''term len 0'' (Output x),
                    SendCommand ''show access-session'' (Output inventory)]) \<and>
           counts = all_where (count_after ''Session count = '') inventory \<and>
           (\<forall>pre K post.
              inventory = pre @ ''Session count = '' @ K @ ''\<newline>'' @ post \<and>
              K \<noteq> [] \<and> list_all is_digit K \<and>
              \<not> contains ''Session count = '' pre \<and> \<not> contains ''Session count = '' post
              \<longrightarrow> counts = [K]) \<and>
           (\<not> contains ''Session count = '' inventory \<longrightarrow> counts = []) \<and>
           (non_overlapping (mac_positions inventory) \<longrightarrow>
              macs = map (\<lambda>p. take 14 (drop p inventory)) (mac_positions inventory))"
proof -
  have "collect_active_sessions e (dev, tr) =
          (Inr (), dev\<lparr>session_count := findall session_count_re inventory,
                        mac_addresses := findall mac_re inventory\<rparr>,
           tr @ [SendCommand ''term len 0'' (Output x),
                 SendCommand ''show access-session'' (Output inventory)])"
    using assms by (simp add: collect_active_sessions_def send_command_def Let_def)
  moreover have "findall session_count_re inventory
                   = all_where (count_after ''Session count = '') inventory"
    by (rule findall_session_count)
  moreover have "\<forall>pre K post.
              inventory = pre @ ''Session count = '' @ K @ ''\<newline>'' @ post \<and>
              K \<noteq> [] \<and> list_all is_digit K \<and>
              \<not> contains ''Session count = '' pre \<and> \<not> contains ''Session count = '' post
              \<longrightarrow> findall session_count_re inventory = [K]"
    using findall_session_count_one by blast
  moreover have "\<not> contains ''Session count = '' inventory
                   \<longrightarrow> findall session_count_re inventory = []"
    using findall_session_count_absent by blast
  moreover have "non_overlapping (mac_positions inventory) \<longrightarrow>
              findall mac_re inventory = map (\<lambda>p. take 14 (drop p inventory)) (mac_positions inventory)"
    using findall_mac by blast
  ultimately show ?thesis by blast
qed

theorem collect_active_sessions_inventory_witness:
  "connection open_device = Some (Handle ''10.0.0.1'') \<and>
   command_reply inventory_env [] ''term len 0'' = Output [] \<and>
   command_reply inventory_env [SendCommand ''term len 0'' (Output [])] ''show access-session''
     = Output inventory_text \<and>
   inventory_text = ''Gi1/0/1 0050.5699.1234 mab\<newline>'' @ ''Session count = '' @ ''1'' @ ''\<newline>'' @ [] \<and>
   list_all is_digit ''1'' \<and>
   \<not> contains ''Session count = '' ''Gi1/0/1 0050.5699.1234 mab\<newline>'' \<and>
   \<not> contains ''Session count = '' [] \<and>
   non_overlapping (mac_positions inventory_text) \<and>
   collect_active_sessions inventory_env (open_device, []) =
     (Inr (), open_device\<lparr>session_count := [''1''], mac_addresses := [''0050.5699.1234'']\<rparr>,
      [SendCommand ''term len 0'' (Output []),
       SendCommand ''show access-session'' (Output inventory_text)])"
proof -
  have h1: "connection open_device = Some (Handle ''10.0.0.1'')"
    by (simp add: open_device_def Device_def)
  have h2: "command_reply inventory_env [] ''term len 0'' = Output []"
    by (simp add: inventory_env_def switch_env_def demo_switch_def)
  have h3: "command_reply inventory_env ([] @ [SendCommand ''term len 0'' (Output [])])
              ''show access-session'' = Output inventory_text"
    by (simp add: inventory_env_def switch_env_def demo_switch_def)
  have w1: "inventory_text =
              ''Gi1/0/1 0050.5699.1234 mab\<newline>'' @ ''Session count = '' @ ''1'' @ ''\<newline>'' @ []"
    by (simp add: inventory_text_def)
  have w2: "list_all is_digit ''1''" by (simp add: char_defs)
  have w3: "\<not> contains ''Session count = '' ''Gi1/0/1 0050.5699.1234 mab\<newline>''" by simp
  have w4: "\<not> contains ''Session count = '' []" by simp
  have w5: "non_overlapping (mac_positions inventory_text)"
    by (simp add: mac_positions_inventory_text)
  from collect_active_sessions_inventory [OF h1 h2 h3] obtain counts macs where
    r: "collect_active_sessions inventory_env (open_device, []) =
             (Inr (), open_device\<lparr>session_count := counts, mac_addresses := macs\<rparr>,
              [] @ [SendCommand ''term len 0'' (Output []),
                    SendCommand ''show access-session'' (Output inventory_text)])"
    and c: "\<And>pre K post.
              inventory_text = pre @ ''Session count = '' @ K @ ''\<newline>'' @ post \<and>
              K \<noteq> [] \<and> list_all is_digit K \<and>
              \<not> contains ''Session count = '' pre \<and> \<not> contains ''Session count = '' post
              \<Longrightarrow> counts = [K]"
    and m: "non_overlapping (mac_positions inventory_text) \<Longrightarrow>
              macs = map (\<lambda>p. take 14 (drop p inventory_text)) (mac_positions inventory_text)"
    by blast
  have w0: "''1'' \<noteq> []" by simp
  have "counts = [''1'']"
    by (rule c [of "''Gi1/0/1 0050.5699.1234 mab\<newline>''" "''1''" "[]"])
       (intro conjI w0 w1 w2 w3 w4)
  moreover have "macs = [''0050.5699.1234'']"
    using m [OF w5] unfolding mac_positions_inventory_text by (simp add: inventory_text_def)
  ultimately have "collect_active_sessions inventory_env (open_device, []) =
     (Inr (), open_device\<lparr>session_count := [''1''], mac_addresses := [''0050.5699.1234'']\<rparr>,
      [SendCommand ''term len 0'' (Output []),
       SendCommand ''show access-session'' (Output inventory_text)])"
    using r by simp
  with h1 h2 h3 w1 w2 w3 w4 w5 show ?thesis by simp
qed

section \<open>The fields of an entry\<close>

text \<open>
  The example detail text, field by field.
\<close>

lemma detail_text_words:
  "first_where mac_at detail_text = Some ''0050.5699.1234''"
  "first_where ipv4_at detail_text = None"
  "first_where (after_label ''Interface: '') detail_text = Some ''Gi1/0/1''"
  "first_where (after_label_spaces ''User-Name:'') detail_text = None"
  "first_where (after_label ''Status:  '') detail_text = Some ''Unauthorized''"
  "first_where method_token detail_text = Some ''mab''"
  by (simp_all add: detail_text_def words_defs char_defs)

text \<open>
  C3, as claimed: the status is the text after \<open>Status: \<close> (one space), the user
  name the text after \<open>User-Name: \<close> (one space), up to the end of the line, and the
  method is the token immediately before \<open>Authc\<close> on a line. In this failed session
  the text after \<open>Status: \<close> is \<open>down\<close>, and the status of the entry is
  \<open>Unknown\<close>: the pattern needs two spaces after the colon. The text after
  \<open>User-Name: \<close> starts with a space, and the user name of the entry does not: the
  pattern skips all the white space after the colon. The token before \<open>Authc\<close> is
  \<open>webauth\<close>, and the method of the entry is \<open>bauth\<close>.
\<close>

theorem field_labels_counterexample:
  "contains ''FAIL'' ''FAIL\<newline>Status: down\<newline>User-Name:  bob\<newline>webauth Authc x'' \<and>
   first_where (after_label ''Status: '')
       ''FAIL\<newline>Status: down\<newline>User-Name:  bob\<newline>webauth Authc x'' = Some ''down'' \<and>
   status (dict_session_details ''0050.5699.1234''
       ''FAIL\<newline>Status: down\<newline>User-Name:  bob\<newline>webauth Authc x'') = ''Unknown'' \<and>
   first_where (after_label ''User-Name: '')
       ''FAIL\<newline>Status: down\<newline>User-Name:  bob\<newline>webauth Authc x'' = Some '' bob'' \<and>
   user_name (dict_session_details ''0050.5699.1234''
       ''FAIL\<newline>Status: down\<newline>User-Name:  bob\<newline>webauth Authc x'') = ''bob'' \<and>
   token_before ''Authc''
       ''FAIL\<newline>Status: down\<newline>User-Name:  bob\<newline>webauth Authc x'' = Some ''webauth'' \<and>
   auth_method (dict_session_details ''0050.5699.1234''
       ''FAIL\<newline>Status: down\<newline>User-Name:  bob\<newline>webauth Authc x'') = ''bauth''"
  by (simp add: dict_session_details_def first_or_def findall_def re_defs char_defs words_defs
        token_before_def)

text \<open>
  C3, amended. For a detail text with a failure marker that holds a MAC address, or whose
  method is not \<open>mab\<close>, the iteration returns and stores an entry (whatever else is
  absent from the text), whose fields are: the first MAC address of the text, or the
  queried one; the first IPv4 address, or \<open>unknown\<close>; the rest of the line after the
  first \<open>Interface: \<close>, or \<open>Unknown\<close>; the rest of the line after the white
  space that follows the first \<open>User-Name:\<close> followed by white space, or
  \<open>Unknown\<close>; the rest of the line after the first \<open>Status:  \<close> (two spaces), or
  \<open>Unknown\<close>. The method is \<open>Unknown\<close> when the text has no \<open>Authc\<close>, and
  it is the token immediately before the first \<open>Authc\<close> of the text when that token
  is a word of three to five word characters, on the same line as \<open>Authc\<close> and
  separated from it by blanks, and \<open>Authc\<close> is followed by a white-space character.
  Nothing is said of the method for tokens of other shapes.
\<close>

theorem details_step_fields:
  assumes "command_reply e tr (detail_command each) = Output t"
    and "contains ''FAIL'' t \<or> contains ''Unauthorized'' t"
    and "first_where mac_at t \<noteq> None \<or>
         auth_method (dict_session_details each t)
           \<notin> {''mab'', ''maB'', ''mAb'', ''mAB'', ''Mab'', ''MaB'', ''MAb'', ''MAB''}"
  shows "\<exists>d tr'.
           details_step e each (dev, tr) =
             (Inr (), dev\<lparr>dict_result := (dict_result dev)(each \<mapsto> d)\<rparr>, tr') \<and>
           mac_address d = (case first_where mac_at t of None \<Rightarrow> each | Some m \<Rightarrow> m) \<and>
           ip_address d = (case first_where ipv4_at t of None \<Rightarrow> ''unknown'' | Some a \<Rightarrow> a) \<and>
           interface d =
             (case first_where (after_label ''Interface: '') t of None \<Rightarrow> ''Unknown'' | Some r \<Rightarrow> r) \<and>
           user_name d =
             (case first_where (after_label_spaces ''User-Name:'') t of
                None \<Rightarrow> ''Unknown'' | Some r \<Rightarrow> r) \<and>
           status d =
             (case first_where (after_label ''Status:  '') t of None \<Rightarrow> ''Unknown'' | Some r \<Rightarrow> r) \<and>
           (\<not> contains ''Authc'' t \<longrightarrow> auth_method d = ''Unknown'') \<and>
           (\<forall>pre w sp c post.
              t = pre @ w @ sp @ ''Authc'' @ c # post \<and>
              3 \<le> length w \<and> length w \<le> 5 \<and> list_all is_word w \<and>
              (pre = [] \<or> \<not> is_word (last pre)) \<and>
              sp \<noteq> [] \<and> list_all (\<lambda>x. is_space x \<and> \<not> is_newline x) sp \<and>
              is_space c \<and> \<not> contains ''Authc'' (pre @ w)
              \<longrightarrow> auth_method d = w)"
proof -
  let ?d = "dict_session_details each t"
  let ?tr = "tr @ [SendCommand (detail_command each) (Output t)]"
  have f: "is_failure t" using assms(2) by (simp add: is_failure_def)
  have meth: "auth_method ?d = first_or (findall method_re t) ''Unknown''"
    by (simp add: dict_session_details_def)
  have "findall mac_re t \<noteq> [] \<or>
          (case findall method_re t of [] \<Rightarrow> True | m # ms \<Rightarrow> lower m \<noteq> ''mab'')"
  proof (cases "first_where mac_at t \<noteq> None")
    case True
    then show ?thesis using findall_mac_first [of t, symmetric]
      by (cases "findall mac_re t") auto
  next
    case False
    with assms(3) have "\<not> lower (auth_method ?d) = ''mab''" unfolding lower_eq_mab by simp
    then show ?thesis unfolding meth by (cases "findall method_re t") (auto simp: first_or_def)
  qed
  from vendor_lookup_returns [OF this] obtain v tr' where
    v: "vendor_lookup e (findall method_re t) (findall mac_re t) ?d ?tr = (Inr (?d\<lparr>vendor := v\<rparr>), tr')"
    by blast
  have step: "details_step e each (dev, tr) =
          (Inr (), dev\<lparr>dict_result := (dict_result dev)(each \<mapsto> ?d\<lparr>vendor := v\<rparr>)\<rparr>, tr')"
    unfolding details_step_failed [OF assms(1) f] v by simp
  have m: "auth_method ?d = (case first_where method_token t of None \<Rightarrow> ''Unknown'' | Some w \<Rightarrow> w)"
    by (rule dict_session_details_fields)
  have m1: "\<not> contains ''Authc'' t \<longrightarrow> auth_method ?d = ''Unknown''"
    unfolding m by (simp add: first_where_method_token_absent)
  have m2: "\<forall>pre w sp c post.
              t = pre @ w @ sp @ ''Authc'' @ c # post \<and>
              3 \<le> length w \<and> length w \<le> 5 \<and> list_all is_word w \<and>
              (pre = [] \<or> \<not> is_word (last pre)) \<and>
              sp \<noteq> [] \<and> list_all (\<lambda>x. is_space x \<and> \<not> is_newline x) sp \<and>
              is_space c \<and> \<not> contains ''Authc'' (pre @ w)
              \<longrightarrow> auth_method ?d = w"
  proof (intro allI impI)
    fix pre w sp c post
    assume a: "t = pre @ w @ sp @ ''Authc'' @ c # post \<and>
              3 \<le> length w \<and> length w \<le> 5 \<and> list_all is_word w \<and>
              (pre = [] \<or> \<not> is_word (last pre)) \<and>
              sp \<noteq> [] \<and> list_all (\<lambda>x. is_space x \<and> \<not> is_newline x) sp \<and>
              is_space c \<and> \<not> contains ''Authc'' (pre @ w)"
    then have "first_where method_token (pre @ w @ sp @ ''Authc'' @ c # post) = Some w"
      by (intro first_where_method_token) simp_all
    with a show "auth_method ?d = w" unfolding m by simp
  qed
  show ?thesis
    using step m1 m2 dict_session_details_fields(1-5) [of each t]
    by (intro exI [of _ "?d\<lparr>vendor := v\<rparr>"] exI [of _ tr']) simp
qed

theorem details_step_fields_witness:
  "command_reply detail_env [] (detail_command ''0050.5699.1234'') = Output detail_text \<and>
   contains ''Unauthorized'' detail_text \<and>
   first_where mac_at detail_text \<noteq> None \<and>
   detail_text =
     ''Interface: Gi1/0/1\<newline>MAC Address: 0050.5699.1234\<newline>Status:  Unauthorized\<newline>''
       @ ''mab'' @ ''   '' @ ''Authc'' @ CHR '' '' # ''Failed\<newline>'' \<and>
   \<not> contains ''Authc''
       (''Interface: Gi1/0/1\<newline>MAC Address: 0050.5699.1234\<newline>Status:  Unauthorized\<newline>'' @ ''mab'') \<and>
   (\<exists>d tr'.
      details_step detail_env ''0050.5699.1234'' (open_device, []) =
        (Inr (), open_device\<lparr>dict_result := (dict_result open_device)(''0050.5699.1234'' \<mapsto> d)\<rparr>, tr') \<and>
      mac_address d = ''0050.5699.1234'' \<and> ip_address d = ''unknown'' \<and>
      interface d = ''Gi1/0/1'' \<and> user_name d = ''Unknown'' \<and>
      status d = ''Unauthorized'' \<and> auth_method d = ''mab'')"
proof -
  let ?pre = "''Interface: Gi1/0/1\<newline>MAC Address: 0050.5699.1234\<newline>Status:  Unauthorized\<newline>''"
  have h1: "command_reply detail_env [] (detail_command ''0050.5699.1234'') = Output detail_text"
    by (simp add: detail_env_def switch_env_def)
  have h2: "contains ''Unauthorized'' detail_text"
    by (simp add: detail_text_def)
  have h3: "first_where mac_at detail_text \<noteq> None"
    by (simp add: detail_text_words)
  have s1: "detail_text = ?pre @ ''mab'' @ ''   '' @ ''Authc'' @ CHR '' '' # ''Failed\<newline>''"
    by (simp add: detail_text_def)
  have s2: "\<not> contains ''Authc'' (?pre @ ''mab'')" by simp
  have s3: "3 \<le> length ''mab'' \<and> length ''mab'' \<le> 5 \<and> list_all is_word ''mab'' \<and>
            (?pre = [] \<or> \<not> is_word (last ?pre)) \<and>
            ''   '' \<noteq> [] \<and> list_all (\<lambda>x. is_space x \<and> \<not> is_newline x) ''   '' \<and>
            is_space CHR '' ''"
    by (simp add: char_defs)
  from details_step_fields [OF h1 disjI2 [OF h2] disjI1 [OF h3], of open_device]
  obtain d tr' where all:
    "details_step detail_env ''0050.5699.1234'' (open_device, []) =
        (Inr (), open_device\<lparr>dict_result := (dict_result open_device)(''0050.5699.1234'' \<mapsto> d)\<rparr>, tr') \<and>
     mac_address d = (case first_where mac_at detail_text of None \<Rightarrow> ''0050.5699.1234'' | Some m \<Rightarrow> m) \<and>
     ip_address d = (case first_where ipv4_at detail_text of None \<Rightarrow> ''unknown'' | Some a \<Rightarrow> a) \<and>
     interface d =
       (case first_where (after_label ''Interface: '') detail_text of None \<Rightarrow> ''Unknown'' | Some r \<Rightarrow> r) \<and>
     user_name d =
       (case first_where (after_label_spaces ''User-Name:'') detail_text of
          None \<Rightarrow> ''Unknown'' | Some r \<Rightarrow> r) \<and>
     status d =
       (case first_where (after_label ''Status:  '') detail_text of None \<Rightarrow> ''Unknown'' | Some r \<Rightarrow> r) \<and>
     (\<not> contains ''Authc'' detail_text \<longrightarrow> auth_method d = ''Unknown'') \<and>
     (\<forall>pre w sp c post.
        detail_text = pre @ w @ sp @ ''Authc'' @ c # post \<and>
        3 \<le> length w \<and> length w \<le> 5 \<and> list_all is_word w \<and>
        (pre = [] \<or> \<not> is_word (last pre)) \<and>
        sp \<noteq> [] \<and> list_all (\<lambda>x. is_space x \<and> \<not> is_newline x) sp \<and>
        is_space c \<and> \<not> contains ''Authc'' (pre @ w)
        \<longrightarrow> auth_method d = w)"
    by (elim exE) 
  from all have step: "details_step detail_env ''0050.5699.1234'' (open_device, []) =
        (Inr (), open_device\<lparr>dict_result := (dict_result open_device)(''0050.5699.1234'' \<mapsto> d)\<rparr>, tr')"
    by (rule conjunct1)
  from all have fields: "mac_address d = ''0050.5699.1234''" "ip_address d = ''unknown''"
      "interface d = ''Gi1/0/1''" "user_name d = ''Unknown''" "status d = ''Unauthorized''"
    unfolding detail_text_words by simp_all
  note token = all [THEN conjunct2, THEN conjunct2, THEN conjunct2, THEN conjunct2,
    THEN conjunct2, THEN conjunct2, THEN conjunct2, rule_format]
  have "auth_method d = ''mab''"
    by (rule token [of ?pre "''mab''" "''   ''" "CHR '' ''" "''Failed\<newline>''"])
       (intro conjI s1 s2 s3 [THEN conjunct1] s3 [THEN conjunct2, THEN conjunct1]
          s3 [THEN conjunct2, THEN conjunct2, THEN conjunct1]
          s3 [THEN conjunct2, THEN conjunct2, THEN conjunct2, THEN conjunct1]
          s3 [THEN conjunct2, THEN conjunct2, THEN conjunct2, THEN conjunct2, THEN conjunct1]
          s3 [THEN conjunct2, THEN conjunct2, THEN conjunct2, THEN conjunct2, THEN conjunct2, THEN conjunct1]
          s3 [THEN conjunct2, THEN conjunct2, THEN conjunct2, THEN conjunct2, THEN conjunct2, THEN conjunct2])
  with step fields have "\<exists>d tr'.
      details_step detail_env ''0050.5699.1234'' (open_device, []) =
        (Inr (), open_device\<lparr>dict_result := (dict_result open_device)(''0050.5699.1234'' \<mapsto> d)\<rparr>, tr') \<and>
      mac_address d = ''0050.5699.1234'' \<and> ip_address d = ''unknown'' \<and>
      interface d = ''Gi1/0/1'' \<and> user_name d = ''Unknown'' \<and>
      status d = ''Unauthorized'' \<and> auth_method d = ''mab''"
    by blast
  with h1 h2 h3 s1 s2 show ?thesis by (intro conjI)
qed

section \<open>Only failing sessions are recorded\<close>

text \<open>
  C1. When a run returns a result, the inventory that the switch reported is in the log,
  the detail of every MAC address of the inventory was queried, and a MAC address is a key
  of the result if and only if it is in the inventory and a detail text the switch
  returned for it contains \<open>FAIL\<close> or \<open>Unauthorized\<close>. A session whose detail text
  has neither marker is not in the result.
\<close>

theorem main_result_failing_only:
  assumes "main e ip = (Inr result, log)"
  shows "\<exists>inventory.
           SendCommand ''show access-session'' (Output inventory) \<in> set log \<and>
           (\<forall>m\<in>set (findall mac_re inventory).
              \<exists>t. SendCommand (detail_command m) (Output t) \<in> set log) \<and>
           (\<forall>m. m \<in> dom result \<longleftrightarrow>
                  m \<in> set (findall mac_re inventory) \<and>
                  (\<exists>t. SendCommand (detail_command m) (Output t) \<in> set log
                       \<and> (contains ''FAIL'' t \<or> contains ''Unauthorized'' t)))"
proof (cases rule: main_cases [of e ip])
  case (completed x inventory dev new ok)
  with assms have r: "result = dict_result dev"
    and log: "log = preamble ip x inventory @ new @ [Disconnect, WriteFile ''static/result.json'' ok]"
    by (auto split: if_splits)
  from details_loop_dom [OF completed(1)] have d:
    "\<And>m. m \<in> dom (dict_result dev) \<longleftrightarrow>
       (\<exists>t. SendCommand (detail_command m) (Output t) \<in> set new \<and> is_failure t)"
    by (simp add: connected_device_def)
  from details_loop_queries [OF completed(1)] have q:
    "\<forall>m\<in>set (findall mac_re inventory). \<exists>t. SendCommand (detail_command m) (Output t) \<in> set new"
    "\<And>m y. SendCommand (detail_command m) y \<in> set new \<Longrightarrow> m \<in> set (findall mac_re inventory)"
    by auto
  have in_log: "\<And>m y. SendCommand (detail_command m) y \<in> set log
                  \<longleftrightarrow> SendCommand (detail_command m) y \<in> set new"
    unfolding log by (simp add: preamble_no_detail)
  have "SendCommand ''show access-session'' (Output inventory) \<in> set log"
    unfolding log by (simp add: preamble_def)
  moreover have "\<forall>m\<in>set (findall mac_re inventory).
              \<exists>t. SendCommand (detail_command m) (Output t) \<in> set log"
    using q(1) in_log by simp
  moreover have "\<forall>m. m \<in> dom result \<longleftrightarrow>
                  m \<in> set (findall mac_re inventory) \<and>
                  (\<exists>t. SendCommand (detail_command m) (Output t) \<in> set log
                       \<and> (contains ''FAIL'' t \<or> contains ''Unauthorized'' t))"
    unfolding r d in_log using q(2) by (auto simp: is_failure_def)
  ultimately show ?thesis by blast
qed (use assms in auto)

theorem main_result_failing_only_witness:
  "main (switch_env Connected (demo_switch ''0050.5699.1234 0050.5699.5678'' one_failed) api_down)
        ''10.0.0.1'' = (Inr demo_result, demo_log) \<and>
   (\<exists>inventory.
           SendCommand ''show access-session'' (Output inventory) \<in> set demo_log \<and>
           (\<forall>m\<in>set (findall mac_re inventory).
              \<exists>t. SendCommand (detail_command m) (Output t) \<in> set demo_log) \<and>
           (\<forall>m. m \<in> dom demo_result \<longleftrightarrow>
                  m \<in> set (findall mac_re inventory) \<and>
                  (\<exists>t. SendCommand (detail_command m) (Output t) \<in> set demo_log
                       \<and> (contains ''FAIL'' t \<or> contains ''Unauthorized'' t))))"
proof -
  have h: "main (switch_env Connected (demo_switch ''0050.5699.1234 0050.5699.5678'' one_failed) api_down)
        ''10.0.0.1'' = (Inr demo_result, demo_log)"
    by (simp add: run_defs char_defs re_defs demo_defs one_failed_def demo_result_def demo_log_def)
  show ?thesis
    by (rule conjI [OF h main_result_failing_only [OF h]])
qed

section \<open>The vendor query\<close>

text \<open>
  C4. The vendor query is claimed never to raise out of the classification of a MAB
  session. A non-200 answer and a failed request do give the vendor \<open>Unknown\<close>
  (\<open>vendor_lookup_response\<close>, \<open>vendor_lookup_exception\<close>), but the URL is built from
  the first MAC address found in the detail text: when the text of a failed MAB session
  holds no MAC address, the run ends with \<open>IndexError\<close>.
\<close>

theorem main_mab_without_mac:
  "main (switch_env Connected (demo_switch ''0050.5699.1234'' mab_detail_no_mac) api_404) ''10.0.0.1''
   = (Inl IndexError,
      [Connect ''10.0.0.1'' Connected,
       SendCommand ''term len 0'' (Output []),
       SendCommand ''show access-session'' (Output ''0050.5699.1234''),
       SendCommand ''show access-session mac 0050.5699.1234 details'' (Output ''FAIL mab Authc x'')])"
  by (simp add: run_defs char_defs re_defs demo_defs)

text \<open>
  C5. A pause is claimed after every vendor query, whatever its outcome. The pause is the
  last statement of the \<open>try\<close> block: when the request raises, it is skipped. In this run
  the vendor service is down and the two vendor queries follow each other without any
  pause.
\<close>

theorem main_no_pause_after_exception:
  "snd (main (switch_env Connected (demo_switch ''0050.5699.1234 0050.5699.5678'' mab_detail) api_down)
         ''10.0.0.1'')
   = [Connect ''10.0.0.1'' Connected,
      SendCommand ''term len 0'' (Output []),
      SendCommand ''show access-session'' (Output ''0050.5699.1234 0050.5699.5678''),
      SendCommand ''show access-session mac 0050.5699.1234 details''
        (Output ''FAIL mab Authc x 0050.5699.1234''),
      HttpGet ''https://api.macvendors.com/0050.5699.1234'' RequestException,
      SendCommand ''show access-session mac 0050.5699.5678 details''
        (Output ''FAIL mab Authc x 0050.5699.5678''),
      HttpGet ''https://api.macvendors.com/0050.5699.5678'' RequestException,
      Disconnect,
      WriteFile ''static/result.json'' True]"
  by (simp add: run_defs char_defs re_defs demo_defs)

text \<open>
  C7. In the result of a run, an entry has a vendor if and only if its method is \<open>mab\<close>
  in any letter case, that is, one of the eight spellings of \<open>mab\<close> in upper and lower
  case letters (\<open>lower_eq_mab\<close>: these are the strings that \<open>lower\<close> maps to
  \<open>mab\<close>); the vendor then is what the vendor service answered to a request for the
  MAC address of the entry: the body of a 200 answer, \<open>Unknown\<close> otherwise. The
  example run has the method \<open>MAB\<close>.
\<close>

theorem main_vendor_iff_mab:
  assumes "main e ip = (Inr result, log)" and "result m = Some d"
  shows "(vendor d \<noteq> None \<longleftrightarrow>
            auth_method d \<in> {''mab'', ''maB'', ''mAb'', ''mAB'', ''Mab'', ''MaB'', ''MAb'', ''MAB''}) \<and>
         (\<forall>v. vendor d = Some v \<longrightarrow>
            (\<exists>r. HttpGet (''https://api.macvendors.com/'' @ mac_address d) r \<in> set log \<and>
                 v = (case r of Response status_code body \<Rightarrow> if status_code = 200 then body else ''Unknown''
                      | RequestException \<Rightarrow> ''Unknown'')))"
proof (cases rule: main_cases [of e ip])
  case (completed x inventory dev new ok)
  with assms have r: "result = dict_result dev"
    and log: "log = (preamble ip x inventory @ new) @ [Disconnect, WriteFile ''static/result.json'' ok]"
    by (auto split: if_splits)
  have "\<forall>m d. dict_result (connected_device ip inventory) m = Some d
          \<longrightarrow> vendor_ok (preamble ip x inventory) d"
    by (simp add: connected_device_def)
  from details_loop_vendor [OF completed(1) this] assms(2) r
  have "vendor_ok (preamble ip x inventory @ new) d" by blast
  then have "vendor_ok log d" unfolding log by (rule vendor_ok_mono)
  then show ?thesis unfolding vendor_ok_def lower_eq_mab by simp
qed (use assms in auto)

theorem main_vendor_iff_mab_witness:
  "main (switch_env Connected (demo_switch ''0050.5699.1234'' upper_mab_detail) api_404) ''10.0.0.1''
     = (Inr upper_result, upper_log) \<and>
   upper_result ''0050.5699.1234'' =
     Some \<lparr>status = ''Unknown'', interface = ''Unknown'', mac_address = ''0050.5699.1234'',
           ip_address = ''unknown'', user_name = ''Unknown'', auth_method = ''MAB'',
           vendor = Some ''Unknown''\<rparr> \<and>
   ''MAB'' \<in> {''mab'', ''maB'', ''mAb'', ''mAB'', ''Mab'', ''MaB'', ''MAb'', ''MAB''} \<and>
   (\<exists>r. HttpGet ''https://api.macvendors.com/0050.5699.1234'' r \<in> set upper_log \<and>
        ''Unknown'' = (case r of Response status_code body \<Rightarrow> if status_code = 200 then body else ''Unknown''
                       | RequestException \<Rightarrow> ''Unknown''))"
proof -
  let ?d = "\<lparr>status = ''Unknown'', interface = ''Unknown'', mac_address = ''0050.5699.1234'',
           ip_address = ''unknown'', user_name = ''Unknown'', auth_method = ''MAB'',
           vendor = Some ''Unknown''\<rparr>"
  have h: "main (switch_env Connected (demo_switch ''0050.5699.1234'' upper_mab_detail) api_404) ''10.0.0.1''
     = (Inr upper_result, upper_log)"
    by (simp add: run_defs char_defs re_defs demo_defs upper_mab_detail_def upper_result_def
          upper_log_def lower_spellings del: lower_def)
  have g: "upper_result ''0050.5699.1234'' = Some ?d"
    by (simp add: upper_result_def)
  from main_vendor_iff_mab [OF h g] have
    "''MAB'' \<in> {''mab'', ''maB'', ''mAb'', ''mAB'', ''Mab'', ''MaB'', ''MAb'', ''MAB''}"
    "\<exists>r. HttpGet ''https://api.macvendors.com/0050.5699.1234'' r \<in> set upper_log \<and>
        ''Unknown'' = (case r of Response status_code body \<Rightarrow> if status_code = 200 then body else ''Unknown''
                       | RequestException \<Rightarrow> ''Unknown'')"
    by simp_all
  with h g show ?thesis by (intro conjI)
qed

section \<open>Opening and closing the connection\<close>

text \<open>
  C6, as claimed: the connection is closed in every outcome of a run. It is not: in this
  run the detail query raises, the run ends with that exception, and nothing is closed.
\<close>

theorem main_detail_failure_no_close:
  "fst (main (switch_env Connected (demo_switch ''0050.5699.1234'' detail_raises) api_down) ''10.0.0.1'')
     = Inl CommandError \<and>
   Disconnect \<notin> set (snd (main (switch_env Connected (demo_switch ''0050.5699.1234'' detail_raises)
                                   api_down) ''10.0.0.1''))"
  by (simp add: run_defs char_defs re_defs demo_defs)

text \<open>
  C6, amended: the connection is closed exactly in the runs that get through the
  inventory and every detail query, that is, in the runs that return a result or fail
  only when the snapshot is written. A run that fails to connect or in which a command or
  the vendor query raises ends without closing.
\<close>

theorem main_close_iff_completed:
  "Disconnect \<in> set (snd (main e ip)) \<longleftrightarrow>
     (\<exists>result. fst (main e ip) = Inr result) \<or> fst (main e ip) = Inl OSError"
proof (cases rule: main_cases [of e ip])
  case (details_fail x inventory err dev new)
  from details_loop_log [OF details_fail(1)] have "list_all query_event new" by simp
  then have "Disconnect \<notin> set new" by (auto simp: list_all_iff query_event_def)
  moreover from details_loop_error [OF details_fail(1)] have "err \<noteq> OSError" by auto
  ultimately show ?thesis using details_fail(2) by (simp add: preamble_def)
qed (simp_all add: preamble_def)

text \<open>
  C8. When the connection cannot be opened, the run ends with \<open>ConnectionError\<close> and
  returns no result; the connection attempt is the only event of the run, so that no
  command was sent to the switch.
\<close>

theorem main_open_fails:
  assumes "connect_reply e [] ip \<noteq> Connected"
  shows "main e ip = (Inl ConnectionError, [Connect ip (connect_reply e [] ip)])"
  using assms
  by (cases "connect_reply e [] ip")
     (simp_all add: main_def init_connection_ssh_def try_to_connect_ssh_def Device_def Let_def)

theorem main_open_fails_witness:
  "connect_reply (switch_env NetmikoTimeoutException detail_raises api_down) [] ''10.0.0.1'' \<noteq> Connected
   \<and> main (switch_env NetmikoTimeoutException detail_raises api_down) ''10.0.0.1''
       = (Inl ConnectionError, [Connect ''10.0.0.1'' NetmikoTimeoutException])"
proof -
  have h: "connect_reply (switch_env NetmikoTimeoutException detail_raises api_down) [] ''10.0.0.1''
             \<noteq> Connected"
    by (simp add: switch_env_def)
  from main_open_fails [OF h] h show ?thesis by (simp add: switch_env_def)
qed

section \<open>What the detail collection leaves unchanged\<close>

text \<open>
  C10. However \<open>collect_active_sessions_details\<close> ends, it leaves the address, the
  connection, the session count and the MAC list of the device as they were, and the entry
  of every key that is not in the MAC list; no key of the result is removed, so that the
  entries of an earlier call are still there.
\<close>

theorem details_frame:
  assumes "collect_active_sessions_details e (dev, tr) = (r, dev', tr')"
  shows "current_ip_address dev' = current_ip_address dev \<and> connection dev' = connection dev
         \<and> session_count dev' = session_count dev \<and> mac_addresses dev' = mac_addresses dev
         \<and> (\<forall>k. k \<notin> set (mac_addresses dev) \<longrightarrow> dict_result dev' k = dict_result dev k)
         \<and> dom (dict_result dev) \<subseteq> dom (dict_result dev')"
proof (cases "connection dev")
  case None
  with assms show ?thesis by (simp add: collect_active_sessions_details_def)
next
  case (Some h)
  with assms have "details_loop e (mac_addresses dev) (dev, tr) = (r, dev', tr')"
    by (simp add: collect_active_sessions_details_def)
  from details_loop_frame [OF this] show ?thesis .
qed

theorem details_frame_witness:
  "collect_active_sessions_details
     (switch_env Connected (demo_switch [] one_failed) api_down) (earlier_device, [])
     = (Inr (), later_device,
        [SendCommand ''show access-session mac 0050.5699.1234 details'' (Output ''Unauthorized'')]) \<and>
   ''aaaa.bbbb.cccc'' \<notin> set (mac_addresses earlier_device) \<and>
   dict_result later_device ''aaaa.bbbb.cccc'' = dict_result earlier_device ''aaaa.bbbb.cccc'' \<and>
   dict_result earlier_device ''aaaa.bbbb.cccc'' \<noteq> None \<and>
   current_ip_address later_device = current_ip_address earlier_device \<and>
   connection later_device = connection earlier_device \<and>
   session_count later_device = session_count earlier_device \<and>
   mac_addresses later_device = mac_addresses earlier_device \<and>
   dom (dict_result earlier_device) \<subseteq> dom (dict_result later_device)"
proof -
  have h: "collect_active_sessions_details
     (switch_env Connected (demo_switch [] one_failed) api_down) (earlier_device, [])
     = (Inr (), later_device,
        [SendCommand ''show access-session mac 0050.5699.1234 details'' (Output ''Unauthorized'')])"
    by (simp add: run_defs char_defs re_defs demo_defs one_failed_def earlier_device_def
          later_device_def)
  have k: "''aaaa.bbbb.cccc'' \<notin> set (mac_addresses earlier_device)"
    by (simp add: earlier_device_def)
  have n: "dict_result earlier_device ''aaaa.bbbb.cccc'' \<noteq> None"
    by (simp add: earlier_device_def)
  from details_frame [OF h] k have
    "dict_result later_device ''aaaa.bbbb.cccc'' = dict_result earlier_device ''aaaa.bbbb.cccc''"
    "current_ip_address later_device = current_ip_address earlier_device"
    "connection later_device = connection earlier_device"
    "session_count later_device = session_count earlier_device"
    "mac_addresses later_device = mac_addresses earlier_device"
    "dom (dict_result earlier_device) \<subseteq> dom (dict_result later_device)"
    by blast+
  with h k n show ?thesis by (intro conjI)
qed

section \<open>MAC normalization: results\<close>

lemma mac_normalization_groups:
  assumes "length (strip_nonword a) = 12"
  shows "mac_normalization a symbol =
           take 4 (strip_nonword a) @ symbol @ take 4 (drop 4 (strip_nonword a)) @ symbol
           @ drop 8 (strip_nonword a)"
  using assms by (simp add: mac_normalization_def Let_def)

lemma mac_normalization_Error:
  assumes "length (strip_nonword a) \<noteq> 12"
  shows "mac_normalization a symbol = ''Error''"
  using assms by (simp add: mac_normalization_def)

lemma mac_normalization_example:
  "mac_normalization ''AA:BB:CC:DD:EE:FF'' ''.'' = ''AABB.CCDD.EEFF''"
  by (simp add: mac_normalization_def strip_nonword_def is_word_def is_digit_def code_def)

text \<open>
  C9. MAC normalization is claimed to return \<open>Error\<close> for every input that is not a
  valid MAC address. The function only counts the word characters that are left after
  the delimiters are removed: twelve letters that are not hexadecimal digits come back
  regrouped, not as \<open>Error\<close>.
\<close>

theorem mac_normalization_non_hex:
  "mac_normalization ''ZZZZZZZZZZZZ'' ''.'' = ''ZZZZ.ZZZZ.ZZZZ''"
  by (simp add: mac_normalization_def strip_nonword_def is_word_def is_digit_def code_def)

end
